theory Spec2Isabelle
  imports Main "HOL-Library.Word"
begin

unbundle bit_operations_syntax

section \<open>Errors\<close>

text \<open>
  Modelled from the spec: package \<open>status\<close> is not among the sources. Its sentinel
  errors are the classes of the spec's taxonomy; the sources name three of them
  (\<open>ErrInvalidArgument\<close>, \<open>ErrFailedPrecondition\<close>, \<open>ErrUnimplemented\<close>) and put an
  error into a class by wrapping the sentinel with \<open>%w\<close>. An error built by
  \<open>fmt.Errorf\<close> is kept as its format string, its string operands and the sentinel it
  wraps, if any: \<open>errors.Is(err, status.ErrX)\<close> holds exactly when
  \<open>wraps err = Some ErrX\<close>.
\<close>

datatype status =
  ErrInvalidArgument | ErrNotFound | ErrFailedPrecondition
  | ErrAlreadyExists | ErrUnimplemented | ErrInternal

record error =
  format :: string
  operands :: "string list"
  wraps :: "status option"

definition Errorf :: "string \<Rightarrow> string list \<Rightarrow> status option \<Rightarrow> error" where
  "Errorf f xs w = \<lparr>format = f, operands = xs, wraps = w\<rparr>"

section \<open>Point (api/point.go)\<close>

type_synonym Scalar = string

definition Bytes :: Scalar where "Bytes = ''bytes''"
definition String :: Scalar where "String = ''string''"
definition Bool :: Scalar where "Bool = ''bool''"
definition Int64 :: Scalar where "Int64 = ''int64''"
definition Uint64 :: Scalar where "Uint64 = ''uin64''"
definition Float64 :: Scalar where "Float64 = ''float64''"

definition supportedScalars :: "Scalar \<rightharpoonup> unit" where
  "supportedScalars =
     map_of [('''', ()), (Bytes, ()), (String, ()), (Bool, ()),
             (Int64, ()), (Uint64, ()), (Float64, ())]"

definition ValidateScalar :: "Scalar \<Rightarrow> error option" where
  "ValidateScalar s =
     (case supportedScalars s of
        None \<Rightarrow> Some (Errorf ''scalar type is not supported (%q): %w'' [s] (Some ErrInvalidArgument))
      | Some _ \<Rightarrow> None)"

record Point =
  Nullable :: bool
  Repeated :: bool
  Scalar :: Scalar

definition zeroPoint :: Point where
  "zeroPoint = \<lparr>Nullable = False, Repeated = False, Scalar = ''''\<rparr>"

text \<open>Go's \<open>int\<close> is 64 bits wide here: the constant \<open>1 << 31\<close> does not fit a 32-bit \<open>int\<close>.\<close>

type_synonym goint = "64 word"

definition NewPointFromNumber :: "goint \<Rightarrow> Point" where
  "NewPointFromNumber x =
     (let p = zeroPoint;
          p = (if x AND push_bit 31 1 \<noteq> 0 then p\<lparr>Nullable := True\<rparr> else p);
          p = (if x AND push_bit 30 1 \<noteq> 0 then p\<lparr>Repeated := True\<rparr> else p);
          c = x AND 0x7
      in if c = 0 then p
         else if c = 1 then p\<lparr>Scalar := String\<rparr>
         else if c = 2 then p\<lparr>Scalar := Bool\<rparr>
         else if c = 3 then p\<lparr>Scalar := Int64\<rparr>
         else if c = 4 then p\<lparr>Scalar := Uint64\<rparr>
         else if c = 5 then p\<lparr>Scalar := Float64\<rparr>
         else p)"

definition AsNumber :: "Point \<Rightarrow> goint" where
  "AsNumber t =
     (let x = 0;
          x = (if Nullable t then x OR push_bit 31 1 else x);
          x = (if Repeated t then x OR push_bit 30 1 else x)
      in if Scalar t = '''' \<or> Scalar t = Bytes then x
         else if Scalar t = String then x OR 1
         else if Scalar t = Bool then x OR 2
         else if Scalar t = Int64 then x OR 3
         else if Scalar t = Uint64 then x OR 4
         else if Scalar t = Float64 then x OR 5
         else x)"

text \<open>The two flag bits as \<open>AsNumber\<close> sets them, before the scalar code is or-ed in.\<close>

definition flags :: "bool \<Rightarrow> bool \<Rightarrow> goint" where
  "flags n r =
     (if r then (if n then 0 OR push_bit 31 1 else 0) OR push_bit 30 1
      else (if n then 0 OR push_bit 31 1 else 0))"

text \<open>The receivers of the getters and of \<open>String\<close> are pointers: \<open>None\<close> is the nil pointer.\<close>

definition GetNullable :: "Point option \<Rightarrow> bool" where
  "GetNullable p = (case p of None \<Rightarrow> False | Some q \<Rightarrow> Nullable q)"

definition GetRepeated :: "Point option \<Rightarrow> bool" where
  "GetRepeated p = (case p of None \<Rightarrow> False | Some q \<Rightarrow> Repeated q)"

definition GetScalar :: "Point option \<Rightarrow> Scalar" where
  "GetScalar p = (case p of None \<Rightarrow> '''' | Some q \<Rightarrow> Scalar q)"

definition Point_String :: "Point option \<Rightarrow> string" where
  "Point_String p =
     (case p of
        None \<Rightarrow> ''bytes''
      | Some q \<Rightarrow>
          (let sb = [];
               sb = (if GetNullable p then sb @ ''*'' else sb);
               sb = (if GetRepeated p then sb @ ''[]'' else sb)
           in if Scalar q = '''' \<or> Scalar q = Bytes then sb @ ''bytes''
              else if Scalar q = String then sb @ ''string''
              else if Scalar q = Bool then sb @ ''bytes''
              else if Scalar q = Int64 then sb @ ''int64''
              else if Scalar q = Uint64 then sb @ ''uint64''
              else if Scalar q = Float64 then sb @ ''float64''
              else sb @ ''bytes''))"

definition ValidatePoint :: "Point option \<Rightarrow> error option" where
  "ValidatePoint p = (case p of None \<Rightarrow> None | Some q \<Rightarrow> ValidateScalar (Scalar q))"

section \<open>Regex.Bind (v1alpha)\<close>

text \<open>
  \<open>Edge.Result\<close> has type \<open>any\<close>; the two dynamic types \<open>Bind\<close> asserts are kept apart
  from every other value. \<open>AnyRegexPtr None\<close> is a nil \<open>*Regex\<close>. A failed type assertion
  and a nil dereference panic.
\<close>

record Regex =
  Pattern :: string

datatype any = AnyString string | AnyRegexPtr "Regex option" | AnyOther

record Edge =
  SrcField :: string
  Result :: any

datatype 'a go = Return 'a | Panic

definition Bind :: "Regex \<Rightarrow> Edge \<Rightarrow> (error option \<times> Regex) go" where
  "Bind x e =
     (if SrcField e = ''pattern'' then
        (case Result e of
           AnyString s \<Rightarrow> Return (None, x\<lparr>Pattern := s\<rparr>)
         | _ \<Rightarrow> Panic)
      else if SrcField e = '''' then
        (case Result e of
           AnyRegexPtr (Some r) \<Rightarrow> Return (None, r)
         | _ \<Rightarrow> Panic)
      else Return (Some (Errorf ''not found: %q'' [SrcField e] None), x))"

section \<open>Pipes, actions and the index\<close>

text \<open>
  Modelled from the spec: the types \<open>nuggit.Action\<close> and \<open>nuggit.Pipe\<close> and their getters
  are not among the sources. An Action is a kind (the serialized field \<open>action\<close>) and an
  argument mapping from strings to strings, kept as an association list read with
  \<open>map_of\<close>; \<open>GetOrDefaultArg\<close> gives the empty string for an absent argument. A Pipe is an
  ordered sequence of Actions and a Point.
\<close>

record Action =
  action :: string
  args :: "(string \<times> string) list"

definition GetAction :: "Action \<Rightarrow> string" where
  "GetAction a = action a"

definition GetOrDefaultArg :: "Action \<Rightarrow> string \<Rightarrow> string" where
  "GetOrDefaultArg a k = (case map_of (args a) k of None \<Rightarrow> '''' | Some v \<Rightarrow> v)"

record Pipe =
  Actions :: "Action list"
  Point :: Point

definition zeroPipe :: Pipe where
  "zeroPipe = \<lparr>Actions = [], Point = zeroPoint\<rparr>"

text \<open>
  Modelled from the spec: the type \<open>Index\<close> and its method \<open>GetUniquePipe\<close> are not among
  the sources. The index is the list of its (name, pipe) entries; a name resolves when
  exactly one entry carries it, and fails to resolve when none or more than one does.
  The lookup does not depend on how a pipe is represented.
\<close>

type_synonym Index = "(string \<times> Pipe) list"

definition GetUniquePipe :: "(string \<times> 'p) list \<Rightarrow> string \<Rightarrow> 'p option" where
  "GetUniquePipe idx name =
     (case filter (\<lambda>e. fst e = name) idx of
        [e] \<Rightarrow> Some (snd e)
      | _ \<Rightarrow> None)"

section \<open>Flatten on values\<close>

text \<open>
  The slice functions of the standard library, on the sequence a slice holds. \<open>Delete\<close> is
  only called with \<open>i < len(actions)\<close> and \<open>j = i + 1\<close>, and \<open>Insert\<close> with
  \<open>i \<le> len\<close>, so neither panics in \<open>Flatten\<close>.
\<close>

definition Clone :: "'a list \<Rightarrow> 'a list" where
  "Clone s = s"

definition Delete :: "'a list \<Rightarrow> nat \<Rightarrow> nat \<Rightarrow> 'a list" where
  "Delete s i j = take i s @ drop j s"

definition Insert :: "'a list \<Rightarrow> nat \<Rightarrow> 'a list \<Rightarrow> 'a list" where
  "Insert s i v = take i s @ v @ drop i s"

definition unresolved :: "string \<Rightarrow> error" where
  "unresolved name = Errorf ''referenced pipe not found or is not unique (%q)'' [name] None"

text \<open>
  The loop of \<open>Flatten\<close> over \<open>(actions, i)\<close>. It need not terminate, so it is a partial
  function: \<open>None\<close> is a run that never returns, \<open>Some (Inl e)\<close> the early return with an
  error, \<open>Some (Inr actions)\<close> the exit of the loop.
\<close>

partial_function (option) Flatten_loop :: "Index \<Rightarrow> Action list \<Rightarrow> nat \<Rightarrow> (error + Action list) option" where
  "Flatten_loop idx actions i =
     (if i < length actions then
        (let a = actions ! i in
         if GetAction a \<noteq> ''pipe'' then Flatten_loop idx actions (i + 1)
         else
           (let name = GetOrDefaultArg a ''name'' in
            case GetUniquePipe idx name of
              None \<Rightarrow> Some (Inl (unresolved name))
            | Some rp \<Rightarrow> Flatten_loop idx (Insert (Delete actions i (i + 1)) i (Actions rp)) i))
      else Some (Inr actions))"

text \<open>\<open>Flatten\<close> returns the pair (pipe, error) of the source: the zero Pipe with the error, or the new Pipe with nil.\<close>

definition Flatten :: "Index \<Rightarrow> Pipe \<Rightarrow> (Pipe \<times> error option) option" where
  "Flatten idx pipe =
     (case Flatten_loop idx (Clone (Actions pipe)) 0 of
        None \<Rightarrow> None
      | Some (Inl e) \<Rightarrow> Some (zeroPipe, Some e)
      | Some (Inr actions) \<Rightarrow> Some (\<lparr>Actions = actions, Point = Point pipe\<rparr>, None))"

text \<open>
  What the spec calls replacing each reference action in place by the referenced pipe's
  action sequence, nested references expanding recursively: \<open>expands idx actions result\<close>
  holds when \<open>result\<close> is \<open>actions\<close> with every kind-\<open>pipe\<close> action replaced by the
  expansion of the actions of the pipe its \<open>name\<close> argument resolves to. A derivation is
  finite, so the relation holds for no sequence whose expansion runs into a cycle.
\<close>

inductive expands :: "Index \<Rightarrow> Action list \<Rightarrow> Action list \<Rightarrow> bool" for idx :: Index where
  expands_Nil: "expands idx [] []"
| expands_Keep:
    "GetAction a \<noteq> ''pipe'' \<Longrightarrow> expands idx as rs \<Longrightarrow> expands idx (a # as) (a # rs)"
| expands_Inline:
    "GetAction a = ''pipe'' \<Longrightarrow> GetUniquePipe idx (GetOrDefaultArg a ''name'') = Some rp
     \<Longrightarrow> expands idx (Actions rp) rs1 \<Longrightarrow> expands idx as rs2
     \<Longrightarrow> expands idx (a # as) (rs1 @ rs2)"

code_pred expands .

text \<open>
  \<open>reaches idx actions n\<close>: inlining \<open>actions\<close> from left to right arrives at a reference
  to the pipe named \<open>n\<close>, either in \<open>actions\<close> itself or inside a pipe inlined on the
  way, every reference before it resolving and expanding finitely. A pipe named \<open>q\<close>
  inlines itself, directly or through other pipes, when \<open>q\<close> resolves to a pipe whose
  actions reach \<open>q\<close>.
\<close>

inductive reaches :: "Index \<Rightarrow> Action list \<Rightarrow> string \<Rightarrow> bool" for idx :: Index where
  reaches_here:
    "GetAction a = ''pipe'' \<Longrightarrow> GetOrDefaultArg a ''name'' = n \<Longrightarrow> reaches idx (a # as) n"
| reaches_skip:
    "GetAction a \<noteq> ''pipe'' \<Longrightarrow> reaches idx as n \<Longrightarrow> reaches idx (a # as) n"
| reaches_into:
    "GetAction a = ''pipe'' \<Longrightarrow> GetUniquePipe idx (GetOrDefaultArg a ''name'') = Some rp
     \<Longrightarrow> reaches idx (Actions rp) n \<Longrightarrow> reaches idx (a # as) n"
| reaches_past:
    "GetAction a = ''pipe'' \<Longrightarrow> GetUniquePipe idx (GetOrDefaultArg a ''name'') = Some rp
     \<Longrightarrow> expands idx (Actions rp) rs \<Longrightarrow> reaches idx as n \<Longrightarrow> reaches idx (a # as) n"

code_pred reaches .

text \<open>Actions and pipes used as concrete inputs.\<close>

definition step_action :: "string \<Rightarrow> Action" where
  "step_action k = \<lparr>action = k, args = []\<rparr>"

definition pipeRef :: "string \<Rightarrow> Action" where
  "pipeRef n = \<lparr>action = ''pipe'', args = [(''name'', n)]\<rparr>"

definition pipe_of :: "Action list \<Rightarrow> Pipe" where
  "pipe_of as = \<lparr>Actions = as, Point = zeroPoint\<rparr>"


section \<open>ScanDependencies (storage/pipes.go)\<close>

text \<open>
  \<open>integrity.NameDigest\<close> is the (name, digest) key of a pipe; \<open>api.Pipe\<close> is a pipe
  with its key. The database and the helpers that are not among the sources are the
  environment of the scan:
  \<^item> \<open>conn_error\<close>, \<open>prepare_error\<close>: the error of \<open>s.db.Conn\<close> and of
    \<open>conn.PrepareContext\<close>, if any;
  \<^item> \<open>query k\<close>: what \<open>prep.QueryContext\<close> gives for the key \<open>k\<close>, an error or the
    rows of the pipes that the pipe \<open>k\<close> references, in the order the cursor delivers
    them; each row is the outcome of \<open>rows.Scan\<close>, an error or the three nullable
    columns; \<open>rows_err\<close> is what \<open>rows.Err()\<close> reports once \<open>rows.Next()\<close> has
    returned false;
  \<^item> \<open>unmarshalNullableJSONString\<close> and \<open>SetCheckNameDigest\<close>: the two helpers that
    turn a row into an \<open>api.Pipe\<close>, each of which may fail.
  \<open>seq2Error\<close>, also absent, is taken to yield its error once.
\<close>

record NameDigest =
  Name :: string
  Digest :: string

record ApiPipe =
  ApiPipe_key :: NameDigest
  ApiPipe_pipe :: Pipe

definition Key :: "ApiPipe \<Rightarrow> NameDigest" where
  "Key p = ApiPipe_key p"

type_synonym NullString = "string option"

definition NullString_String :: "NullString \<Rightarrow> string" where
  "NullString_String s = (case s of None \<Rightarrow> '''' | Some v \<Rightarrow> v)"

type_synonym Row = "NullString \<times> NullString \<times> NullString"

record Rows =
  rows :: "(error + Row) list"
  rows_err :: "error option"

record ScanEnv =
  conn_error :: "error option"
  prepare_error :: "error option"
  query :: "NameDigest \<Rightarrow> error + Rows"
  unmarshalNullableJSONString :: "NullString \<Rightarrow> error + Pipe"
  SetCheckNameDigest :: "Pipe \<Rightarrow> string \<Rightarrow> string \<Rightarrow> error option"

text \<open>
  The consumer of the sequence is the body of a \<open>range\<close> loop, reached through the
  callback \<open>yield\<close>: it takes the consumer's state and the pair (pipe, error), and
  returns whether to go on and the consumer's new state. Once it has returned false, a
  further call of \<open>yield\<close> panics before the body runs.
\<close>

type_synonym item = "ApiPipe option \<times> error option"
type_synonym 'c yield = "'c \<Rightarrow> item \<Rightarrow> bool \<times> 'c"

text \<open>
  How a scan ends, with the state of the consumer. The cursor \<open>rows\<close> is closed only by
  \<open>rows.Next()\<close> returning false; the source never closes it itself, and the deferred
  \<open>conn.Close()\<close> does not return while a cursor of the connection is open. So the scan
  returns (\<open>ScanReturns\<close>) or panics (\<open>ScanPanics\<close>) when it leaves with every cursor read
  to its end, and it blocks for ever in the deferred close (\<open>ScanBlocks\<close>) on each path
  that leaves a cursor open: the \<open>return\<close> after a row failed to scan or decode, and
  whatever follows a \<open>break\<close>.
\<close>

datatype 'c scan_exit = ScanReturns 'c | ScanPanics 'c | ScanBlocks 'c

text \<open>
  The inner loop \<open>for rows.Next()\<close> over the rows of one query, on the state
  (queue, seen, consumer): it runs to the end of the rows (\<open>RowsDone\<close>), leaves by
  \<open>break\<close> when the consumer returns false (\<open>RowsBreak\<close>), or returns from the whole
  function after yielding an error (\<open>RowsReturn\<close>); in the last two cases the cursor
  stays open.
\<close>

datatype 'c rows_exit =
  RowsDone "NameDigest list" "NameDigest set" 'c
  | RowsBreak "NameDigest list" "NameDigest set" 'c
  | RowsReturn 'c

fun scan_rows :: "ScanEnv \<Rightarrow> 'c yield \<Rightarrow> (error + Row) list \<Rightarrow> NameDigest list \<Rightarrow> NameDigest set \<Rightarrow> 'c
    \<Rightarrow> 'c rows_exit" where
  "scan_rows env yield [] queue seen c = RowsDone queue seen c"
| "scan_rows env yield (Inl err # rs) queue seen c = RowsReturn (snd (yield c (None, Some err)))"
| "scan_rows env yield (Inr (name, digest, spec) # rs) queue seen c =
     (case unmarshalNullableJSONString env spec of
        Inl err \<Rightarrow> RowsReturn (snd (yield c (None, Some err)))
      | Inr pipe \<Rightarrow>
          (case SetCheckNameDigest env pipe (NullString_String name) (NullString_String digest) of
             Some err \<Rightarrow>
               RowsReturn (snd (yield c
                 (None, Some (Errorf ''failed to set digest (%q): %w'' [NullString_String name] (wraps err)))))
           | None \<Rightarrow>
               (let p = \<lparr>ApiPipe_key = \<lparr>Name = NullString_String name, Digest = NullString_String digest\<rparr>,
                         ApiPipe_pipe = pipe\<rparr>;
                    (more, c') = yield c (Some p, None)
                in if \<not> more then RowsBreak queue seen c'
                   else
                     (let k = Key p;
                          queue' = (if k \<notin> seen then queue @ [Key p] else queue);
                          seen' = insert k seen
                      in scan_rows env yield rs queue' seen' c'))))"

text \<open>
  The outer loop once the consumer has returned false to the \<open>yield\<close> of \<open>rows.Err()\<close>,
  whose result the source ignores, every cursor so far read to its end. The body of the
  consumer does not run again, so its state stays and the queue only shrinks: the scan
  returns when the queue runs out, panics at the next \<open>yield\<close> outside a cursor (a failed
  query, another \<open>rows.Err()\<close>), and blocks when the next \<open>yield\<close> comes at a row, the
  panic running into the deferred close with that cursor open.
\<close>

fun scan_stopped :: "ScanEnv \<Rightarrow> NameDigest list \<Rightarrow> 'c \<Rightarrow> 'c scan_exit" where
  "scan_stopped env [] c = ScanReturns c"
| "scan_stopped env (pipe # queue1) c =
     (case query env pipe of
        Inl err \<Rightarrow> ScanPanics c
      | Inr r \<Rightarrow>
          (if rows r \<noteq> [] then ScanBlocks c
           else
             (case rows_err r of
                Some err \<Rightarrow> ScanPanics c
              | None \<Rightarrow> scan_stopped env queue1 c)))"

text \<open>
  The outer loop \<open>for len(queue) > 0\<close>. Nothing bounds the number of keys the
  environment can deliver, so the loop is a partial function; \<open>None\<close> is a scan whose
  loop never ends. \<open>rows.Err()\<close> is read after the inner loop. After a \<open>break\<close> the
  cursor is open and the consumer has returned false: the loop goes on over the rest of
  the queue, but no \<open>yield\<close> reaches the consumer any more and every way out of the
  function runs into the deferred close, so the scan blocks with the consumer's state as
  it is.
\<close>

partial_function (option) scan_queue ::
    "ScanEnv \<Rightarrow> 'c yield \<Rightarrow> NameDigest list \<Rightarrow> NameDigest set \<Rightarrow> 'c \<Rightarrow> 'c scan_exit option" where
  "scan_queue env yield queue seen c =
     (case queue of
        [] \<Rightarrow> Some (ScanReturns c)
      | pipe # queue1 \<Rightarrow>
          (case query env pipe of
             Inl err \<Rightarrow> Some (ScanReturns (snd (yield c (None, Some err))))
           | Inr r \<Rightarrow>
               (case scan_rows env yield (rows r) queue1 seen c of
                  RowsReturn c' \<Rightarrow> Some (ScanBlocks c')
                | RowsBreak queue' seen' c' \<Rightarrow> Some (ScanBlocks c')
                | RowsDone queue' seen' c' \<Rightarrow>
                    (case rows_err r of
                       Some err \<Rightarrow>
                         (let (more, c'') = yield c' (None, Some err)
                          in if more then scan_queue env yield queue' seen' c''
                             else Some (scan_stopped env queue' c''))
                     | None \<Rightarrow> scan_queue env yield queue' seen' c'))))"

text \<open>
  \<open>seq2Error\<close> yields its error once and returns; no statement or cursor exists yet.
\<close>

definition seq2Error :: "error \<Rightarrow> 'c yield \<Rightarrow> 'c \<Rightarrow> 'c scan_exit option" where
  "seq2Error err yield c = Some (ScanReturns (snd (yield c (None, Some err))))"

definition ScanDependencies :: "ScanEnv \<Rightarrow> NameDigest \<Rightarrow> 'c yield \<Rightarrow> 'c \<Rightarrow> 'c scan_exit option" where
  "ScanDependencies env pipe yield c =
     (case conn_error env of
        Some err \<Rightarrow> seq2Error err yield c
      | None \<Rightarrow>
          (case prepare_error env of
             Some err \<Rightarrow> seq2Error err yield c
           | None \<Rightarrow> scan_queue env yield [pipe] {} c))"

text \<open>The consumer that ranges over the whole sequence and records every pair it is given.\<close>

definition collect :: "item list yield" where
  "collect c x = (True, c @ [x])"

text \<open>
  A database in which connecting, preparing, scanning and decoding never fail, holding
  the dependency edges \<open>deps\<close> between keys: the query for a key gives one row for each
  edge that leaves the key, in the order of \<open>deps\<close>, and every stored spec decodes to the
  empty pipe.
\<close>

definition row_of :: "NameDigest \<Rightarrow> Row" where
  "row_of k = (Some (Name k), Some (Digest k), Some ''{}'')"

definition graph_env :: "(NameDigest \<times> NameDigest) list \<Rightarrow> ScanEnv" where
  "graph_env deps =
     \<lparr>conn_error = None, prepare_error = None,
      query = (\<lambda>k. Inr \<lparr>rows = map (\<lambda>e. Inr (row_of (snd e))) (filter (\<lambda>e. fst e = k) deps),
                          rows_err = None\<rparr>),
      unmarshalNullableJSONString = (\<lambda>s. Inr \<lparr>Actions = [], Point = zeroPoint\<rparr>),
      SetCheckNameDigest = (\<lambda>p n d. None)\<rparr>"

definition keyA :: NameDigest where
  "keyA = \<lparr>Name = ''A'', Digest = ''da''\<rparr>"

definition keyB :: NameDigest where
  "keyB = \<lparr>Name = ''B'', Digest = ''db''\<rparr>"

definition stored :: "NameDigest \<Rightarrow> item" where
  "stored k = (Some \<lparr>ApiPipe_key = k, ApiPipe_pipe = \<lparr>Actions = [], Point = zeroPoint\<rparr>\<rparr>, None)"

section \<open>PipeStore.Store (storage/pipes.go)\<close>

text \<open>
  Modelled from the spec: the schema of the database is not among the sources. The four
  tables the statements of \<open>Store\<close> name are lists of rows with the columns those
  statements use; a new row takes the next free ID. \<open>Pipes\<close> has a uniqueness constraint
  on (Name, Digest), the one the spec's duplicate insert runs into; \<open>INSERT OR IGNORE\<close>
  skips a label or an edge that is already there.
\<close>

record PipeRow =
  PipeRow_ID :: nat
  PipeRow_Name :: string
  PipeRow_Digest :: string
  PipeRow_TypeNumber :: goint
  PipeRow_Spec :: NullString

record ResourceRow =
  ResourceRow_ID :: nat
  ResourceRow_PipeID :: "nat option"

record LabelRow =
  LabelRow_ID :: nat
  LabelRow_ResourceID :: nat
  LabelRow_Label :: string

record DB =
  Pipes :: "PipeRow list"
  Resources :: "ResourceRow list"
  ResourceLabels :: "LabelRow list"
  PipeDependencies :: "(nat \<times> nat) list"

definition next_id :: "nat list \<Rightarrow> nat" where
  "next_id ids = Suc (fold max ids 0)"

text \<open>
  \<open>INSERT OR IGNORE INTO ResourceLabels (ResourceID, Label) SELECT r.ID, 'disabled' FROM
  Resources AS r JOIN Pipes AS p ON r.PipeID = p.ID WHERE p.Name = ?\<close>
\<close>

definition insert_label_or_ignore :: "LabelRow list \<Rightarrow> nat \<Rightarrow> LabelRow list" where
  "insert_label_or_ignore ls rid =
     (if \<exists>l \<in> set ls. LabelRow_ResourceID l = rid \<and> LabelRow_Label l = ''disabled'' then ls
      else ls @ [\<lparr>LabelRow_ID = next_id (map LabelRow_ID ls), LabelRow_ResourceID = rid,
                  LabelRow_Label = ''disabled''\<rparr>])"

definition disable_old :: "string \<Rightarrow> DB \<Rightarrow> DB" where
  "disable_old name db =
     db\<lparr>ResourceLabels :=
          fold (\<lambda>rid ls. insert_label_or_ignore ls rid)
            (concat (map (\<lambda>r. map (\<lambda>p. ResourceRow_ID r)
                                 (filter (\<lambda>p. ResourceRow_PipeID r = Some (PipeRow_ID p)
                                              \<and> PipeRow_Name p = name) (Pipes db)))
                         (Resources db)))
            (ResourceLabels db)\<rparr>"

text \<open>
  \<open>INSERT INTO Pipes (Name, Digest, TypeNumber, Spec) VALUES (?, ?, ?, ?)\<close>: the driver
  reports a constraint failure when the pair (Name, Digest) is already there.
\<close>

definition constraint_failed :: error where
  "constraint_failed = Errorf ''UNIQUE constraint failed: Pipes.Name, Pipes.Digest'' [] None"

definition insert_pipe :: "string \<Rightarrow> string \<Rightarrow> goint \<Rightarrow> NullString \<Rightarrow> DB \<Rightarrow> error + DB" where
  "insert_pipe name digest typeNumber sp db =
     (if \<exists>p \<in> set (Pipes db). PipeRow_Name p = name \<and> PipeRow_Digest p = digest
      then Inl constraint_failed
      else Inr (db\<lparr>Pipes := Pipes db @
                  [\<lparr>PipeRow_ID = next_id (map PipeRow_ID (Pipes db)), PipeRow_Name = name,
                    PipeRow_Digest = digest, PipeRow_TypeNumber = typeNumber, PipeRow_Spec = sp\<rparr>]\<rparr>))"

text \<open>
  \<open>INSERT OR IGNORE INTO PipeDependencies (PipeID, ReferencedID) SELECT p.ID, p2.ID FROM
  Pipes AS p JOIN Pipes AS p2 ON 1 WHERE p.Name = ? AND p.Digest = ? AND p2.Name = ? AND
  p2.Digest = ? LIMIT 1\<close>
\<close>

definition insert_dep :: "NameDigest \<Rightarrow> NameDigest \<Rightarrow> DB \<Rightarrow> DB" where
  "insert_dep k dep db =
     (case concat (map (\<lambda>p. map (\<lambda>p2. (PipeRow_ID p, PipeRow_ID p2))
                               (filter (\<lambda>p2. PipeRow_Name p2 = Name dep \<and> PipeRow_Digest p2 = Digest dep)
                                       (Pipes db)))
                       (filter (\<lambda>p. PipeRow_Name p = Name k \<and> PipeRow_Digest p = Digest k) (Pipes db))) of
        [] \<Rightarrow> db
      | e # _ \<Rightarrow>
          (if e \<in> set (PipeDependencies db) then db
           else db\<lparr>PipeDependencies := PipeDependencies db @ [e]\<rparr>))"

text \<open>
  \<open>DELETE FROM ResourceLabels WHERE ID IN (SELECT rl.ID FROM ResourceLabels AS rl JOIN
  Resources AS r ON rl.ResourceID = r.ID JOIN Pipes AS p ON r.PipeID = p.ID WHERE p.Name = ?
  AND p.Digest = ? AND rl.Label = 'disabled')\<close>
\<close>

definition enable_new :: "NameDigest \<Rightarrow> DB \<Rightarrow> DB" where
  "enable_new k db =
     db\<lparr>ResourceLabels :=
          filter (\<lambda>rl. \<not> (LabelRow_Label rl = ''disabled''
                           \<and> (\<exists>r \<in> set (Resources db). LabelRow_ResourceID rl = ResourceRow_ID r
                                \<and> (\<exists>p \<in> set (Pipes db). ResourceRow_PipeID r = Some (PipeRow_ID p)
                                      \<and> PipeRow_Name p = Name k \<and> PipeRow_Digest p = Digest k))))
                 (ResourceLabels db)\<rparr>"

text \<open>
  The calls of \<open>Store\<close> that reach the driver, each of which can fail for reasons outside
  the program (a lost connection, a cancelled context, a full disk), and the environment
  of a call: \<open>fault\<close> gives the error the driver returns at a step, if any;
  \<open>marshalNullableJSONString\<close> and \<open>pipes.Deps\<close> are not among the sources.
\<close>

datatype step =
  StepConn | StepBeginTx | StepDisableOld | StepPreparePipe | StepInsertPipe
  | StepPrepareDeps | StepInsertDep nat | StepEnableNew | StepCommit

record StoreEnv =
  fault :: "step \<Rightarrow> error option"
  marshalNullableJSONString :: "Pipe \<Rightarrow> error + NullString"
  Deps :: "Pipe \<Rightarrow> NameDigest list"

text \<open>
  Modelled from the spec: \<open>handleExecErrors\<close> and \<open>alreadyExistsFunc\<close> are not among the
  sources. A duplicate (name, digest) insert fails with AlreadyExists: the constraint
  failure of the driver is replaced by an error that wraps \<open>ErrAlreadyExists\<close>, and every
  other error is passed on.
\<close>

definition alreadyExistsFunc :: "string \<Rightarrow> ApiPipe \<Rightarrow> error \<Rightarrow> error" where
  "alreadyExistsFunc kind pipe err =
     Errorf ''failed to store %s (%q): %w'' [kind, Name (Key pipe)] (Some ErrAlreadyExists)"

definition handleExecErrors :: "error \<Rightarrow> (error \<Rightarrow> error) \<Rightarrow> error" where
  "handleExecErrors err f = (if err = constraint_failed then f err else err)"

text \<open>
  The loop of \<open>storePipeDeps\<close> over the dependencies, the \<open>n\<close>-th being next. Like the
  body of \<open>Store\<close> below, it returns its error together with the state the transaction
  has reached, which holds the writes made before a failure.
\<close>

fun store_deps :: "StoreEnv \<Rightarrow> NameDigest \<Rightarrow> nat \<Rightarrow> NameDigest list \<Rightarrow> DB \<Rightarrow> error option \<times> DB" where
  "store_deps env k n [] tx = (None, tx)"
| "store_deps env k n (dep # deps) tx =
     (case fault env (StepInsertDep n) of
        Some err \<Rightarrow> (Some err, tx)
      | None \<Rightarrow> store_deps env k (Suc n) deps (insert_dep k dep tx))"

definition storePipeDeps :: "StoreEnv \<Rightarrow> DB \<Rightarrow> ApiPipe \<Rightarrow> error option \<times> DB" where
  "storePipeDeps env tx pipe =
     (case fault env StepPrepareDeps of
        Some err \<Rightarrow> (Some err, tx)
      | None \<Rightarrow> store_deps env (Key pipe) 0 (Deps env (ApiPipe_pipe pipe)) tx)"

text \<open>
  The statements of \<open>Store\<close> between \<open>BeginTx\<close> and \<open>Commit\<close>, on the state \<open>tx\<close> of the
  transaction: the error of an early return, or nil when \<open>Commit\<close> is reached, and the
  state of the transaction at that point.
\<close>

definition Store_tx :: "StoreEnv \<Rightarrow> DB \<Rightarrow> ApiPipe \<Rightarrow> error option \<times> DB" where
  "Store_tx env tx pipe =
     (case marshalNullableJSONString env (ApiPipe_pipe pipe) of
        Inl err \<Rightarrow> (Some err, tx)
      | Inr sp \<Rightarrow>
     (case fault env StepDisableOld of
        Some err \<Rightarrow> (Some err, tx)
      | None \<Rightarrow>
     (let tx = disable_old (Name (Key pipe)) tx in
      case fault env StepPreparePipe of
        Some err \<Rightarrow> (Some err, tx)
      | None \<Rightarrow>
     (case (case fault env StepInsertPipe of
              Some err \<Rightarrow> Inl err
            | None \<Rightarrow> insert_pipe (Name (Key pipe)) (Digest (Key pipe))
                        (AsNumber (Point (ApiPipe_pipe pipe))) sp tx) of
        Inl err \<Rightarrow> (Some (handleExecErrors err (alreadyExistsFunc ''pipe'' pipe)), tx)
      | Inr tx \<Rightarrow>
     (case storePipeDeps env tx pipe of
        (Some err, tx) \<Rightarrow> (Some err, tx)
      | (None, tx) \<Rightarrow>
     (case fault env StepEnableNew of
        Some err \<Rightarrow> (Some err, tx)
      | None \<Rightarrow> (None, enable_new (Key pipe) tx)))))))"

text \<open>
  The two ends of a transaction that was begun on the database \<open>db\<close> and has reached the
  state \<open>tx\<close>: \<open>tx.Rollback()\<close> leaves the database as it was, \<open>tx.Commit()\<close> makes the
  state of the transaction the database.
\<close>

definition Rollback :: "DB \<Rightarrow> DB \<Rightarrow> DB" where
  "Rollback db tx = db"

definition Commit :: "DB \<Rightarrow> DB \<Rightarrow> DB" where
  "Commit db tx = tx"

text \<open>
  \<open>Store\<close> on the database \<open>db\<close>: it returns its error and the database after the call.
  No transaction exists when \<open>Conn\<close> or \<open>BeginTx\<close> fails. The deferred \<open>tx.Rollback()\<close>
  runs on every return; it ends the transaction unless \<open>tx.Commit()\<close> has succeeded
  before, after which it does nothing.
\<close>

definition Store :: "StoreEnv \<Rightarrow> DB \<Rightarrow> ApiPipe \<Rightarrow> error option \<times> DB" where
  "Store env db pipe =
     (case fault env StepConn of
        Some err \<Rightarrow> (Some err, db)
      | None \<Rightarrow>
     (case fault env StepBeginTx of
        Some err \<Rightarrow> (Some err, db)
      | None \<Rightarrow>
     (case Store_tx env db pipe of
        (Some err, tx) \<Rightarrow> (Some err, Rollback db tx)
      | (None, tx) \<Rightarrow>
     (case fault env StepCommit of
        Some err \<Rightarrow> (Some err, Rollback db tx)
      | None \<Rightarrow> (None, Commit db tx)))))"

text \<open>
  The calls that reach the driver in a run of \<open>Store\<close> in which none of them fails, in
  their order: one insert for each dependency of the pipe between the preparation of the
  edge statement and the enable toggle. A step of this list that fails is reached unless
  an earlier one has failed.
\<close>

definition Store_steps :: "StoreEnv \<Rightarrow> ApiPipe \<Rightarrow> step list" where
  "Store_steps env pipe =
     [StepConn, StepBeginTx, StepDisableOld, StepPreparePipe, StepInsertPipe, StepPrepareDeps]
     @ map StepInsertDep [0..<length (Deps env (ApiPipe_pipe pipe))]
     @ [StepEnableNew, StepCommit]"

text \<open>The spec row of a pipe: a row of \<open>Pipes\<close> with the pipe's name and digest.\<close>

definition has_row :: "DB \<Rightarrow> ApiPipe \<Rightarrow> bool" where
  "has_row db pipe \<longleftrightarrow>
     (\<exists>p \<in> set (Pipes db). PipeRow_Name p = Name (Key pipe) \<and> PipeRow_Digest p = Digest (Key pipe))"

text \<open>
  An environment in which only the step \<open>failing\<close> fails, if any, and a pipe and a
  database used as concrete inputs: the database holds the pipe \<open>X\<close> at digest \<open>d1\<close>
  with one resource.
\<close>

definition io_error :: error where
  "io_error = Errorf ''disk I/O error'' [] None"

definition faulty_env :: "step option \<Rightarrow> StoreEnv" where
  "faulty_env failing =
     \<lparr>fault = (\<lambda>s. if Some s = failing then Some io_error else None),
      marshalNullableJSONString = (\<lambda>p. Inr (Some ''{}'')),
      Deps = (\<lambda>p. [])\<rparr>"

definition pipeX :: "string \<Rightarrow> ApiPipe" where
  "pipeX d = \<lparr>ApiPipe_key = \<lparr>Name = ''X'', Digest = d\<rparr>, ApiPipe_pipe = \<lparr>Actions = [], Point = zeroPoint\<rparr>\<rparr>"

definition db1 :: DB where
  "db1 = \<lparr>Pipes = [\<lparr>PipeRow_ID = 1, PipeRow_Name = ''X'', PipeRow_Digest = ''d1'',
                      PipeRow_TypeNumber = 0, PipeRow_Spec = Some ''{}''\<rparr>],
          Resources = [\<lparr>ResourceRow_ID = 1, ResourceRow_PipeID = Some 1\<rparr>],
          ResourceLabels = [],
          PipeDependencies = []\<rparr>"

section \<open>Flatten on the heap\<close>

text \<open>
  Whether \<open>Flatten\<close> writes to its input depends on which backing arrays its slices
  share, so here slices are as Go has them. The heap is the list of the backing arrays
  allocated so far, an array being addressed by its position; a slice is a window
  (array, offset, length, capacity) into one of them; a nil or empty slice has length 0 and
  its array is never read. An allocation appends an array to the heap. The runtime rounds
  the capacity of a new array up: \<open>extra n\<close> is the spare capacity it adds to a request
  for \<open>n\<close> elements, filled with zero Actions.
\<close>

type_synonym heap = "Action list list"

record slice =
  slice_base :: nat
  slice_off :: nat
  slice_len :: nat
  slice_cap :: nat

definition nil_slice :: slice where
  "nil_slice = \<lparr>slice_base = 0, slice_off = 0, slice_len = 0, slice_cap = 0\<rparr>"

definition zeroAction :: Action where
  "zeroAction = \<lparr>action = '''', args = []\<rparr>"

definition elems :: "heap \<Rightarrow> slice \<Rightarrow> Action list" where
  "elems h s = take (slice_len s) (drop (slice_off s) (h ! slice_base s))"

definition index_h :: "heap \<Rightarrow> slice \<Rightarrow> nat \<Rightarrow> Action" where
  "index_h h s i = (h ! slice_base s) ! (slice_off s + i)"

text \<open>Writing \<open>xs\<close> over the first \<open>length xs\<close> elements of the window of \<open>s\<close>, in its array.\<close>

definition store_elems :: "heap \<Rightarrow> slice \<Rightarrow> Action list \<Rightarrow> heap" where
  "store_elems h s xs =
     h[slice_base s :=
         take (slice_off s) (h ! slice_base s) @ xs
         @ drop (slice_off s + length xs) (h ! slice_base s)]"

definition alloc :: "(nat \<Rightarrow> nat) \<Rightarrow> heap \<Rightarrow> Action list \<Rightarrow> heap \<times> slice" where
  "alloc extra h xs =
     (h @ [xs @ replicate (extra (length xs)) zeroAction],
      \<lparr>slice_base = length h, slice_off = 0, slice_len = length xs,
       slice_cap = length xs + extra (length xs)\<rparr>)"

text \<open>
  \<open>slices.Clone(s)\<close> is \<open>append(s[:0:0], s...)\<close>: a new array holding the elements of
  \<open>s\<close>, or, for an \<open>s\<close> without elements, the slice \<open>s[:0:0]\<close> of capacity 0.
\<close>

definition Clone_h :: "(nat \<Rightarrow> nat) \<Rightarrow> heap \<Rightarrow> slice \<Rightarrow> heap \<times> slice" where
  "Clone_h extra h s =
     (if slice_len s = 0 then (h, s\<lparr>slice_len := 0, slice_cap := 0\<rparr>)
      else alloc extra h (elems h s))"

text \<open>
  \<open>slices.Delete(s, i, j)\<close> moves \<open>s[j:]\<close> down to \<open>i\<close> in the array of \<open>s\<close> and clears
  the elements that fall off the end. \<open>Flatten\<close> calls it with \<open>i < len(s)\<close> and
  \<open>j = i + 1\<close>, within the bounds it checks.
\<close>

definition Delete_h :: "heap \<Rightarrow> slice \<Rightarrow> nat \<Rightarrow> nat \<Rightarrow> heap \<times> slice" where
  "Delete_h h s i j =
     (if i = j then (h, s)
      else
        (let xs = elems h s
         in (store_elems h s (take i xs @ drop j xs @ replicate (j - i) zeroAction),
             s\<lparr>slice_len := slice_len s - (j - i)\<rparr>)))"

text \<open>
  \<open>slices.Insert(s, i, v...)\<close>, \<open>vs\<close> being the elements of \<open>v\<close>: nothing happens for an
  empty \<open>v\<close>; the elements are shifted and written in the array of \<open>s\<close> when its
  capacity suffices; otherwise the result is built in a new array. \<open>Flatten\<close> calls it
  with \<open>i \<le> len(s)\<close>.
\<close>

definition Insert_h :: "(nat \<Rightarrow> nat) \<Rightarrow> heap \<Rightarrow> slice \<Rightarrow> nat \<Rightarrow> Action list \<Rightarrow> heap \<times> slice" where
  "Insert_h extra h s i vs =
     (let xs = elems h s; n = slice_len s; m = length vs
      in if m = 0 then (h, s)
         else if n + m \<le> slice_cap s then
           (store_elems h s (take i xs @ vs @ drop i xs), s\<lparr>slice_len := n + m\<rparr>)
         else alloc extra h (take i xs @ vs @ drop i xs))"

text \<open>The struct \<open>nuggit.Pipe\<close> as Go holds it: the slice header of its actions and its Point.\<close>

record HPipe =
  HActions :: slice
  HPoint :: Point

definition zeroHPipe :: HPipe where
  "zeroHPipe = \<lparr>HActions = nil_slice, HPoint = zeroPoint\<rparr>"

type_synonym HIndex = "(string \<times> HPipe) list"

text \<open>
  The loop of \<open>Flatten\<close> on the heap and the slice \<open>actions\<close>; the result carries the heap
  the loop leaves behind.
\<close>

partial_function (option) Flatten_loop_h ::
    "(nat \<Rightarrow> nat) \<Rightarrow> HIndex \<Rightarrow> heap \<Rightarrow> slice \<Rightarrow> nat \<Rightarrow> (heap \<times> (error + slice)) option" where
  "Flatten_loop_h extra idx h actions i =
     (if i < slice_len actions then
        (let a = index_h h actions i in
         if GetAction a \<noteq> ''pipe'' then Flatten_loop_h extra idx h actions (i + 1)
         else
           (let name = GetOrDefaultArg a ''name'' in
            case GetUniquePipe idx name of
              None \<Rightarrow> Some (h, Inl (unresolved name))
            | Some rp \<Rightarrow>
                (let (h1, s1) = Delete_h h actions i (i + 1);
                     (h2, s2) = Insert_h extra h1 s1 i (elems h1 (HActions rp))
                 in Flatten_loop_h extra idx h2 s2 i)))
      else Some (h, Inr actions))"

text \<open>
  \<open>Flatten\<close> on the heap. The Pipe is passed by value: \<open>pipe\<close> is the callee's copy of
  the struct, and the assignment to it at the end does not reach the caller.
\<close>

definition Flatten_h ::
    "(nat \<Rightarrow> nat) \<Rightarrow> HIndex \<Rightarrow> heap \<Rightarrow> HPipe \<Rightarrow> (heap \<times> HPipe \<times> error option) option" where
  "Flatten_h extra idx h pipe =
     (let (h0, actions) = Clone_h extra h (HActions pipe)
      in case Flatten_loop_h extra idx h0 actions 0 of
           None \<Rightarrow> None
         | Some (h', Inl e) \<Rightarrow> Some (h', zeroHPipe, Some e)
         | Some (h', Inr actions) \<Rightarrow> Some (h', \<lparr>HActions = actions, HPoint = HPoint pipe\<rparr>, None))"

text \<open>
  A heap used as a concrete input: array 0 holds the actions \<open>[a, pipeRef Q, b]\<close> of the
  input pipe, array 1 the actions \<open>[c, d]\<close> of the pipe the index holds under \<open>Q\<close>.
\<close>

definition heap1 :: heap where
  "heap1 = [[step_action ''a'', pipeRef ''Q'', step_action ''b''],
            [step_action ''c'', step_action ''d'']]"

definition whole :: "nat \<Rightarrow> nat \<Rightarrow> slice" where
  "whole b n = \<lparr>slice_base = b, slice_off = 0, slice_len = n, slice_cap = n\<rparr>"

definition hpipe1 :: HPipe where
  "hpipe1 = \<lparr>HActions = whole 0 3, HPoint = zeroPoint\<rparr>"

definition hindex1 :: HIndex where
  "hindex1 = [(''Q'', \<lparr>HActions = whole 1 2, HPoint = zeroPoint\<rparr>)]"

text \<open>
  The invariant of the loop of \<open>Flatten\<close> on the heap, \<open>h0\<close> being the heap at the call:
  the arrays of \<open>h0\<close> are unchanged in \<open>h\<close>, and the slice \<open>s\<close> the loop works on either
  has no capacity or lies in an array allocated since.
\<close>

definition fresh :: "heap \<Rightarrow> heap \<Rightarrow> slice \<Rightarrow> bool" where
  "fresh h0 h s \<longleftrightarrow>
     take (length h0) h = h0 \<and> length h0 \<le> length h \<and> slice_len s \<le> slice_cap s
     \<and> (slice_cap s = 0 \<or> length h0 \<le> slice_base s)"

text \<open>
  What Go guarantees of every slice value: the length is within the capacity, and a
  slice with capacity lies within its array. A well-formed index holds pipes whose action
  slices are well-formed.
\<close>

definition wf_slice :: "heap \<Rightarrow> slice \<Rightarrow> bool" where
  "wf_slice h s \<longleftrightarrow>
     slice_len s \<le> slice_cap s
     \<and> (slice_cap s = 0
         \<or> (slice_base s < length h \<and> slice_off s + slice_cap s \<le> length (h ! slice_base s)))"

definition wf_index :: "heap \<Rightarrow> HIndex \<Rightarrow> bool" where
  "wf_index h idx \<longleftrightarrow> (\<forall>e \<in> set idx. wf_slice h (HActions (snd e)))"

text \<open>
  The values a heap holds: the pipe a struct and the heap stand for, the index, and the
  result of the loop read in the heap the loop leaves.
\<close>

definition abs_pipe :: "heap \<Rightarrow> HPipe \<Rightarrow> Pipe" where
  "abs_pipe h p = \<lparr>Actions = elems h (HActions p), Point = HPoint p\<rparr>"

definition abs_index :: "heap \<Rightarrow> HIndex \<Rightarrow> Index" where
  "abs_index h idx = map (\<lambda>e. (fst e, abs_pipe h (snd e))) idx"

definition abs_result :: "heap \<times> (error + slice) \<Rightarrow> error + Action list" where
  "abs_result out = (case snd out of Inl e \<Rightarrow> Inl e | Inr s \<Rightarrow> Inr (elems (fst out) s))"

section \<open>Properties of Point\<close>

lemmas scalar_defs = Bytes_def String_def Bool_def Int64_def Uint64_def Float64_def

lemma supported_cases:
  "supportedScalars s \<noteq> None \<longleftrightarrow>
     s = '''' \<or> s = Bytes \<or> s = String \<or> s = Bool \<or> s = Int64 \<or> s = Uint64 \<or> s = Float64"
  by (auto simp: supportedScalars_def)

lemma ValidateScalar_None_iff:
  "ValidateScalar s = None \<longleftrightarrow>
     s = '''' \<or> s = Bytes \<or> s = String \<or> s = Bool \<or> s = Int64 \<or> s = Uint64 \<or> s = Float64"
  using supported_cases [of s] by (auto simp: ValidateScalar_def split: option.splits)

lemma scalar_distinct:
  "Bytes \<noteq> ''''" "String \<noteq> ''''" "Bool \<noteq> ''''" "Int64 \<noteq> ''''" "Uint64 \<noteq> ''''" "Float64 \<noteq> ''''"
  "String \<noteq> Bytes" "Bool \<noteq> Bytes" "Int64 \<noteq> Bytes" "Uint64 \<noteq> Bytes" "Float64 \<noteq> Bytes"
  "Bool \<noteq> String" "Int64 \<noteq> String" "Uint64 \<noteq> String" "Float64 \<noteq> String"
  "Int64 \<noteq> Bool" "Uint64 \<noteq> Bool" "Float64 \<noteq> Bool"
  "Uint64 \<noteq> Int64" "Float64 \<noteq> Int64"
  "Float64 \<noteq> Uint64"
  by (simp_all add: scalar_defs)

lemma AsNumber_flags:
  "AsNumber t =
     (let x = flags (Nullable t) (Repeated t)
      in if Scalar t = '''' \<or> Scalar t = Bytes then x
         else if Scalar t = String then x OR 1
         else if Scalar t = Bool then x OR 2
         else if Scalar t = Int64 then x OR 3
         else if Scalar t = Uint64 then x OR 4
         else if Scalar t = Float64 then x OR 5
         else x)"
  by (simp add: AsNumber_def flags_def Let_def)

lemma decode_flags:
  "c \<in> {0, 1, 2, 3, 4, 5} \<Longrightarrow>
   NewPointFromNumber (flags n r OR c) =
     \<lparr>Nullable = n, Repeated = r,
      Scalar = (if c = 0 then '''' else if c = 1 then String else if c = 2 then Bool
                else if c = 3 then Int64 else if c = 4 then Uint64 else Float64)\<rparr>"
  by (cases n; cases r; auto simp add: NewPointFromNumber_def flags_def zeroPoint_def)

lemma mask_and_bit31:
  "(x AND (push_bit 31 1 OR push_bit 30 1 OR 7)) AND push_bit 31 1 = x AND push_bit 31 (1 :: goint)"
  by (simp add: and.assoc)

lemma mask_and_bit30:
  "(x AND (push_bit 31 1 OR push_bit 30 1 OR 7)) AND push_bit 30 1 = x AND push_bit 30 (1 :: goint)"
  by (simp add: and.assoc)

lemma mask_and_low3:
  "(x AND (push_bit 31 1 OR push_bit 30 1 OR 7)) AND 7 = x AND (7 :: goint)"
  by (simp add: and.assoc)

lemma NewPointFromNumber_mask:
  "NewPointFromNumber (x AND (push_bit 31 1 OR push_bit 30 1 OR 7)) = NewPointFromNumber x"
  unfolding NewPointFromNumber_def Let_def mask_and_bit31 mask_and_bit30 mask_and_low3 ..

text \<open>
  C2 (as stated, refuted): the Point with the literal scalar \<open>bytes\<close>, one of the six
  recognized scalars, encodes to 0, and 0 decodes to the Point with the empty scalar,
  which is a different Point.
\<close>

theorem Point_roundtrip_bytes_counterexample:
  "NewPointFromNumber (AsNumber \<lparr>Nullable = False, Repeated = False, Scalar = ''bytes''\<rparr>)
       = \<lparr>Nullable = False, Repeated = False, Scalar = ''''\<rparr>
   \<and> NewPointFromNumber (AsNumber \<lparr>Nullable = False, Repeated = False, Scalar = ''bytes''\<rparr>)
       \<noteq> \<lparr>Nullable = False, Repeated = False, Scalar = ''bytes''\<rparr>"
  by (simp add: NewPointFromNumber_def AsNumber_def zeroPoint_def scalar_defs)

lemma Point_roundtrip_supported:
  assumes "ValidateScalar (Scalar p) = None"
  shows "NewPointFromNumber (AsNumber p) = p\<lparr>Scalar := (if Scalar p = Bytes then '''' else Scalar p)\<rparr>"
proof -
  have v: "Scalar p = '''' \<or> Scalar p = Bytes \<or> Scalar p = String \<or> Scalar p = Bool
           \<or> Scalar p = Int64 \<or> Scalar p = Uint64 \<or> Scalar p = Float64"
    using assms by (simp add: ValidateScalar_None_iff)
  show ?thesis
    unfolding AsNumber_flags Let_def
    using v decode_flags [of 0 "Nullable p" "Repeated p"] decode_flags [of 1 "Nullable p" "Repeated p"]
      decode_flags [of 2 "Nullable p" "Repeated p"] decode_flags [of 3 "Nullable p" "Repeated p"]
      decode_flags [of 4 "Nullable p" "Repeated p"] decode_flags [of 5 "Nullable p" "Repeated p"]
    by (cases p) (auto simp add: scalar_distinct)
qed

text \<open>
  C2 (amended): for every Point whose scalar is empty or one of \<open>bytes\<close>, \<open>string\<close>,
  \<open>bool\<close>, \<open>int64\<close>, \<open>float64\<close>, decoding the encoding gives the Point back with the
  scalar \<open>bytes\<close> replaced by the empty scalar and both flags as they were; so the round
  trip is the identity on every such Point whose scalar is not the literal \<open>bytes\<close>. The
  sixth scalar, \<open>uint64\<close>, is left out: what happens to it is decided by the misspelt
  constant of C3.
\<close>

theorem Point_roundtrip_normalised:
  assumes "Scalar p \<in> {'''', ''bytes'', ''string'', ''bool'', ''int64'', ''float64''}"
  shows "NewPointFromNumber (AsNumber p) = p\<lparr>Scalar := (if Scalar p = ''bytes'' then '''' else Scalar p)\<rparr>
         \<and> (Scalar p \<noteq> ''bytes'' \<longrightarrow> NewPointFromNumber (AsNumber p) = p)"
proof -
  from assms have "ValidateScalar (Scalar p) = None"
    unfolding ValidateScalar_None_iff by (auto simp: scalar_defs)
  from Point_roundtrip_supported [OF this]
  have "NewPointFromNumber (AsNumber p) = p\<lparr>Scalar := (if Scalar p = ''bytes'' then '''' else Scalar p)\<rparr>"
    by (simp add: Bytes_def)
  then show ?thesis by simp
qed

theorem Point_roundtrip_normalised_witness:
  "Scalar \<lparr>Nullable = True, Repeated = True, Scalar = ''float64''\<rparr>
     \<in> {'''', ''bytes'', ''string'', ''bool'', ''int64'', ''float64''}
   \<and> NewPointFromNumber (AsNumber \<lparr>Nullable = True, Repeated = True, Scalar = ''float64''\<rparr>)
       = \<lparr>Nullable = True, Repeated = True, Scalar = ''float64''\<rparr>"
proof -
  have v: "Scalar \<lparr>Nullable = True, Repeated = True, Scalar = ''float64''\<rparr>
             \<in> {'''', ''bytes'', ''string'', ''bool'', ''int64'', ''float64''}"
    by simp
  show ?thesis
    using v Point_roundtrip_normalised [OF v] by simp
qed

text \<open>
  C3 (the code at the failing input): the scalar name \<open>uint64\<close> is rejected, with an error
  wrapping \<open>ErrInvalidArgument\<close>, and the misspelt \<open>uin64\<close>, the value of the constant
  \<open>Uint64\<close>, is accepted.
\<close>

theorem ValidateScalar_uint64_rejected:
  "ValidateScalar ''uint64''
     = Some (Errorf ''scalar type is not supported (%q): %w'' [''uint64''] (Some ErrInvalidArgument))
   \<and> ValidateScalar ''uin64'' = None"
  by (simp add: ValidateScalar_def supportedScalars_def scalar_defs)

text \<open>
  C7 (the code at the failing input): the Point with scalar \<open>bool\<close> is rendered as
  \<open>bytes\<close>, and with both flags as \<open>*[]bytes\<close>, not as \<open>bool\<close> and \<open>*[]bool\<close>.
\<close>

theorem Point_String_bool_renders_bytes:
  "Point_String (Some \<lparr>Nullable = False, Repeated = False, Scalar = ''bool''\<rparr>) = ''bytes''
   \<and> Point_String (Some \<lparr>Nullable = True, Repeated = True, Scalar = ''bool''\<rparr>) = ''*[]bytes''"
  by (simp add: Point_String_def GetNullable_def GetRepeated_def scalar_defs)

text \<open>
  C10: \<open>NewPointFromNumber\<close> has no failing branch and reads only bit 31, bit 30 and the
  low three bits: two integers that agree on these bits decode to the same Point; an integer
  whose low three bits are 6 or 7 decodes to the empty scalar; and the distinct integers
  0 and 8 decode to the same Point.
\<close>

theorem NewPointFromNumber_reads_five_bits:
  "(x AND (push_bit 31 1 OR push_bit 30 1 OR 7) = y AND (push_bit 31 1 OR push_bit 30 1 OR 7)
      \<longrightarrow> NewPointFromNumber x = NewPointFromNumber y)
   \<and> (x AND 7 = 6 \<or> x AND 7 = 7 \<longrightarrow> Scalar (NewPointFromNumber x) = '''')
   \<and> (0 :: goint) \<noteq> 8 \<and> NewPointFromNumber 0 = NewPointFromNumber 8"
proof -
  have a: "NewPointFromNumber x = NewPointFromNumber y"
    if "x AND (push_bit 31 1 OR push_bit 30 1 OR 7) = y AND (push_bit 31 1 OR push_bit 30 1 OR 7)"
    using that NewPointFromNumber_mask [of x] NewPointFromNumber_mask [of y] by simp
  have b: "Scalar (NewPointFromNumber x) = ''''" if "x AND 7 = 6 \<or> x AND 7 = 7"
    using that by (auto simp add: NewPointFromNumber_def zeroPoint_def Let_def)
  have c: "NewPointFromNumber 0 = NewPointFromNumber 8"
    by (simp add: NewPointFromNumber_def zeroPoint_def)
  from a b c show ?thesis by simp
qed

theorem NewPointFromNumber_reads_five_bits_witness:
  "(14 :: goint) AND (push_bit 31 1 OR push_bit 30 1 OR 7) = 6 AND (push_bit 31 1 OR push_bit 30 1 OR 7)
   \<and> (14 :: goint) AND 7 = 6
   \<and> NewPointFromNumber 14 = NewPointFromNumber 6
   \<and> Scalar (NewPointFromNumber 14) = ''''"
proof -
  have h1: "(14 :: goint) AND (push_bit 31 1 OR push_bit 30 1 OR 7)
              = 6 AND (push_bit 31 1 OR push_bit 30 1 OR 7)"
    by simp
  have h2: "(14 :: goint) AND 7 = 6"
    by simp
  from NewPointFromNumber_reads_five_bits [of 14 6] h1 h2 show ?thesis
    by blast
qed

section \<open>Properties of Regex.Bind\<close>

text \<open>
  C8 (as stated, refuted): binding the unknown field \<open>flags\<close> fails and leaves the Regex as
  it was, but the error is a plain \<open>fmt.Errorf\<close> that wraps no sentinel, so it is not of the
  NotFound class.
\<close>

theorem Bind_unknown_field_counterexample:
  "Bind \<lparr>Pattern = ''a+''\<rparr> \<lparr>SrcField = ''flags'', Result = AnyString ''i''\<rparr>
     = Return (Some (Errorf ''not found: %q'' [''flags''] None), \<lparr>Pattern = ''a+''\<rparr>)
   \<and> wraps (Errorf ''not found: %q'' [''flags''] None) \<noteq> Some ErrNotFound"
  by (simp add: Bind_def Errorf_def)

text \<open>
  C8 (amended): for every Regex and every edge whose source field is neither \<open>pattern\<close>
  nor empty, \<open>Bind\<close> returns, without panicking and whatever the edge carries, the error
  \<open>not found: <field>\<close>, which wraps no status sentinel, and the Regex is unchanged.
\<close>

theorem Bind_unknown_field:
  assumes "SrcField e \<noteq> ''pattern''" and "SrcField e \<noteq> ''''"
  shows "Bind x e = Return (Some (Errorf ''not found: %q'' [SrcField e] None), x)"
  using assms by (simp add: Bind_def)

theorem Bind_unknown_field_witness:
  "SrcField \<lparr>SrcField = ''flags'', Result = AnyOther\<rparr> \<noteq> ''pattern''
   \<and> SrcField \<lparr>SrcField = ''flags'', Result = AnyOther\<rparr> \<noteq> ''''
   \<and> Bind \<lparr>Pattern = ''a+''\<rparr> \<lparr>SrcField = ''flags'', Result = AnyOther\<rparr>
       = Return (Some (Errorf ''not found: %q'' [''flags''] None), \<lparr>Pattern = ''a+''\<rparr>)"
  using Bind_unknown_field [of "\<lparr>SrcField = ''flags'', Result = AnyOther\<rparr>" "\<lparr>Pattern = ''a+''\<rparr>"]
  by simp

section \<open>Properties of Flatten\<close>

lemma loop_exit: "Flatten_loop idx actions (length actions) = Some (Inr actions)"
  by (subst Flatten_loop.simps) simp

lemma loop_keep:
  "GetAction a \<noteq> ''pipe'' \<Longrightarrow>
   Flatten_loop idx (pre @ a # rest) (length pre) = Flatten_loop idx ((pre @ [a]) @ rest) (length (pre @ [a]))"
  by (subst Flatten_loop.simps) simp

lemma loop_inline:
  "GetAction a = ''pipe'' \<Longrightarrow> GetUniquePipe idx (GetOrDefaultArg a ''name'') = Some rp \<Longrightarrow>
   Flatten_loop idx (pre @ a # rest) (length pre) = Flatten_loop idx (pre @ Actions rp @ rest) (length pre)"
  by (subst Flatten_loop.simps) (simp add: Insert_def Delete_def)

lemma loop_expands:
  "expands idx xs rs \<Longrightarrow>
   Flatten_loop idx (pre @ xs @ post) (length pre) = Flatten_loop idx (pre @ rs @ post) (length pre + length rs)"
proof (induction arbitrary: pre post rule: expands.induct)
  case expands_Nil
  show ?case by simp
next
  case (expands_Keep a as rs)
  have "Flatten_loop idx (pre @ (a # as) @ post) (length pre)
        = Flatten_loop idx ((pre @ [a]) @ as @ post) (length (pre @ [a]))"
    using loop_keep [OF expands_Keep.hyps(1), of idx pre "as @ post"] by simp
  also have "\<dots> = Flatten_loop idx ((pre @ [a]) @ rs @ post) (length (pre @ [a]) + length rs)"
    by (rule expands_Keep.IH)
  finally show ?case by simp
next
  case (expands_Inline a rp rs1 as rs2)
  have "Flatten_loop idx (pre @ (a # as) @ post) (length pre)
        = Flatten_loop idx (pre @ Actions rp @ (as @ post)) (length pre)"
    using loop_inline [OF expands_Inline.hyps(1,2), of pre "as @ post"] by simp
  also have "\<dots> = Flatten_loop idx (pre @ rs1 @ (as @ post)) (length pre + length rs1)"
    by (rule expands_Inline.IH(1))
  also have "\<dots> = Flatten_loop idx ((pre @ rs1) @ as @ post) (length (pre @ rs1))"
    by simp
  also have "\<dots> = Flatten_loop idx ((pre @ rs1) @ rs2 @ post) (length (pre @ rs1) + length rs2)"
    by (rule expands_Inline.IH(2))
  finally show ?case by (simp add: add.assoc)
qed

lemma loop_expands_total: "expands idx xs rs \<Longrightarrow> Flatten_loop idx xs 0 = Some (Inr rs)"
  using loop_expands [of idx xs rs "[]" "[]"] loop_exit [of idx rs] by simp

lemma expands_append: "expands idx xs r1 \<Longrightarrow> expands idx ys r2 \<Longrightarrow> expands idx (xs @ ys) (r1 @ r2)"
  by (induction rule: expands.induct) (auto intro: expands.intros)

lemma expands_split:
  "expands idx zs rs \<Longrightarrow> zs = xs @ ys \<Longrightarrow> \<exists>r1 r2. rs = r1 @ r2 \<and> expands idx xs r1 \<and> expands idx ys r2"
proof (induction arbitrary: xs rule: expands.induct)
  case expands_Nil
  then show ?case by (auto intro: expands.intros)
next
  case (expands_Keep a as rs)
  show ?case
  proof (cases xs)
    case Nil
    with expands_Keep.prems have "ys = a # as" by simp
    then have "expands idx ys (a # rs)" using expands_Keep.hyps by (auto intro: expands.intros)
    with Nil show ?thesis by (fastforce intro: expands.intros)
  next
    case (Cons x xs')
    with expands_Keep.prems have x: "x = a" and as: "as = xs' @ ys" by simp_all
    from expands_Keep.IH [OF as] obtain r1 r2 where
      "rs = r1 @ r2" "expands idx xs' r1" "expands idx ys r2" by blast
    then have "a # rs = (a # r1) @ r2 \<and> expands idx xs (a # r1) \<and> expands idx ys r2"
      using Cons x expands_Keep.hyps(1) by (auto intro: expands.intros)
    then show ?thesis by blast
  qed
next
  case (expands_Inline a rp rs1 as rs2)
  show ?case
  proof (cases xs)
    case Nil
    with expands_Inline.prems have "ys = a # as" by simp
    then have "expands idx ys (rs1 @ rs2)"
      using expands_Inline.hyps by (auto intro: expands.intros)
    with Nil show ?thesis by (fastforce intro: expands.intros)
  next
    case (Cons x xs')
    with expands_Inline.prems have x: "x = a" and as: "as = xs' @ ys" by simp_all
    from expands_Inline.IH(2) [OF as] obtain r1 r2 where
      r: "rs2 = r1 @ r2" "expands idx xs' r1" "expands idx ys r2" by blast
    have "expands idx xs (rs1 @ r1)"
      using Cons x expands_Inline.hyps(1,2,3) r(2) by (auto intro: expands.intros)
    with r have "rs1 @ rs2 = (rs1 @ r1) @ r2 \<and> expands idx xs (rs1 @ r1) \<and> expands idx ys r2"
      by simp
    then show ?thesis by blast
  qed
qed

lemma loop_result:
  assumes "Flatten_loop idx acts i = Some res" and "i \<le> length acts"
  shows "case res of
           Inl e \<Rightarrow> \<exists>name. e = unresolved name
         | Inr rs \<Rightarrow> \<exists>ys. rs = take i acts @ ys \<and> expands idx (drop i acts) ys"
  using assms(2)
proof (induction idx acts i res rule: Flatten_loop.raw_induct)
  case (1 loop idx acts i res)
  note IH = "1.IH" and eq = "1.hyps" and le = "1.prems"
  show ?case
  proof (cases "i < length acts")
    case False
    with le eq have "res = Inr acts" "i = length acts" by simp_all
    then show ?thesis by (auto intro: expands.intros)
  next
    case True
    then have d: "drop i acts = acts ! i # drop (Suc i) acts"
      by (simp add: Cons_nth_drop_Suc)
    show ?thesis
    proof (cases "GetAction (acts ! i) \<noteq> ''pipe''")
      case np: True
      with True eq have st: "loop idx acts (i + 1) = Some res" by (simp add: Let_def)
      have le': "i + 1 \<le> length acts" using True by simp
      note ih = IH [OF st le']
      show ?thesis
      proof (cases res)
        case (Inl e)
        with ih show ?thesis by simp
      next
        case (Inr rs)
        with ih obtain ys where ys: "rs = take (i + 1) acts @ ys" "expands idx (drop (i + 1) acts) ys"
          by auto
        have "rs = take i acts @ (acts ! i # ys)"
          using ys(1) True by (simp add: take_Suc_conv_app_nth)
        moreover have "expands idx (drop i acts) (acts ! i # ys)"
          using ys(2) np d by (auto intro: expands.intros)
        ultimately show ?thesis using Inr by auto
      qed
    next
      case p: False
      show ?thesis
      proof (cases "GetUniquePipe idx (GetOrDefaultArg (acts ! i) ''name'')")
        case None
        with True p eq have "res = Inl (unresolved (GetOrDefaultArg (acts ! i) ''name''))"
          by (auto simp add: Let_def)
        then show ?thesis by auto
      next
        case (Some rp)
        let ?acts' = "Insert (Delete acts i (i + 1)) i (Actions rp)"
        have acts': "?acts' = take i acts @ Actions rp @ drop (Suc i) acts"
          using True by (simp add: Insert_def Delete_def min_def)
        from Some True p eq have st: "loop idx ?acts' i = Some res" by (simp add: Let_def)
        have le': "i \<le> length ?acts'" using True unfolding acts' by simp
        note ih = IH [OF st le']
        show ?thesis
        proof (cases res)
          case (Inl e)
          with ih show ?thesis by simp
        next
          case (Inr rs)
          with ih obtain ys where ys: "rs = take i ?acts' @ ys" "expands idx (drop i ?acts') ys"
            by auto
          have t: "take i ?acts' = take i acts" and dr: "drop i ?acts' = Actions rp @ drop (Suc i) acts"
            using True unfolding acts' by simp_all
          from expands_split [OF ys(2) dr] obtain r1 r2 where
            r: "ys = r1 @ r2" "expands idx (Actions rp) r1" "expands idx (drop (Suc i) acts) r2"
            by blast
          have "expands idx (drop i acts) ys"
            using p Some r d by (auto intro: expands.intros)
          with ys(1) t Inr show ?thesis by auto
        qed
      qed
    qed
  qed
qed (rule assms(1))

lemma reaches_append: "reaches idx xs n \<Longrightarrow> reaches idx (xs @ ys) n"
  by (induction rule: reaches.induct) (auto intro: reaches.intros)

lemma reaches_after: "expands idx xs rs \<Longrightarrow> reaches idx ys n \<Longrightarrow> reaches idx (xs @ ys) n"
  by (induction rule: expands.induct) (auto intro: reaches.intros)

lemma flat_None_admissible:
  "ccpo.admissible (flat_lub None) option_ord (\<lambda>y. c \<longrightarrow> y = None)"
  by (rule ccpo.admissibleI) (auto simp: flat_lub_def)

lemma diverges_admissible:
  "option.admissible (\<lambda>f. \<forall>x. Q x \<longrightarrow> f x = None)"
  by (rule admissible_fun [OF flat_interpretation]) (rule flat_None_admissible)

lemma diverges_admissible3:
  "option.admissible (\<lambda>f. \<forall>a b c. Q a b c \<longrightarrow> curry (curry f) a b c = None)"
proof -
  have "option.admissible (\<lambda>f. \<forall>x. (case x of ((a, b), c) \<Rightarrow> Q a b c) \<longrightarrow> f x = None)"
    by (rule diverges_admissible)
  then show ?thesis by (simp add: split_paired_All)
qed

lemma loop_diverges:
  assumes q: "GetUniquePipe idx q = Some rq" and cyc: "reaches idx (Actions rq) q"
  shows "i \<le> length acts \<Longrightarrow> reaches idx (drop i acts) q \<Longrightarrow> Flatten_loop idx acts i = None"
proof -
  have "\<forall>idx' acts i. idx' = idx \<and> i \<le> length acts \<and> reaches idx (drop i acts) q
          \<longrightarrow> Flatten_loop idx' acts i = None"
  proof (induction rule: Flatten_loop.fixp_induct)
    case 1
    show ?case by (rule diverges_admissible3)
  next
    case 2
    show ?case by simp
  next
    case (3 loop)
    show ?case
    proof (intro allI impI)
      fix idx' acts i
      assume a: "idx' = idx \<and> i \<le> length acts \<and> reaches idx (drop i acts) q"
      then have r: "reaches idx (drop i acts) q" and idx': "idx' = idx" by simp_all
      have ne: "drop i acts \<noteq> []"
        using r by (cases rule: reaches.cases) simp_all
      then have lt: "i < length acts" by simp
      then have d: "drop i acts = acts ! i # drop (Suc i) acts"
        by (simp add: Cons_nth_drop_Suc)
      let ?a = "acts ! i"
      show "(if i < length acts then
                (let a = acts ! i in
                 if GetAction a \<noteq> ''pipe'' then loop idx' acts (i + 1)
                 else
                   (let name = GetOrDefaultArg a ''name'' in
                    case GetUniquePipe idx' name of
                      None \<Rightarrow> Some (Inl (unresolved name))
                    | Some rp \<Rightarrow> loop idx' (Insert (Delete acts i (i + 1)) i (Actions rp)) i))
              else Some (Inr acts)) = None"
      proof (cases "GetAction ?a \<noteq> ''pipe''")
        case True
        from r d have "reaches idx (?a # drop (Suc i) acts) q" by simp
        then have "reaches idx (drop (Suc i) acts) q"
          using True by (cases rule: reaches.cases) simp_all
        with 3 lt idx' have "loop idx' acts (i + 1) = None" by simp
        with lt True show ?thesis by (simp add: Let_def)
      next
        case False
        then have p: "GetAction ?a = ''pipe''" by simp
        from r d have "reaches idx (?a # drop (Suc i) acts) q" by simp
        then have "\<exists>rp. GetUniquePipe idx (GetOrDefaultArg ?a ''name'') = Some rp
                      \<and> reaches idx (Actions rp @ drop (Suc i) acts) q"
        proof (cases rule: reaches.cases)
          case reaches_here
          with q reaches_append [OF cyc] show ?thesis by simp
        next
          case reaches_skip
          with p show ?thesis by simp
        next
          case (reaches_into rp)
          with reaches_append show ?thesis by simp
        next
          case (reaches_past rp rs)
          with reaches_after show ?thesis by simp
        qed
        then obtain rp where
          rp: "GetUniquePipe idx (GetOrDefaultArg ?a ''name'') = Some rp"
          and r': "reaches idx (Actions rp @ drop (Suc i) acts) q"
          by blast
        let ?acts' = "Insert (Delete acts i (i + 1)) i (Actions rp)"
        have acts': "?acts' = take i acts @ Actions rp @ drop (Suc i) acts"
          using lt by (simp add: Insert_def Delete_def min_def)
        have "i \<le> length ?acts'" "drop i ?acts' = Actions rp @ drop (Suc i) acts"
          using lt unfolding acts' by simp_all
        with 3 r' idx' have "loop idx' ?acts' i = None" by simp
        with lt p rp idx' show ?thesis by (simp add: Let_def)
      qed
    qed
  qed
  then show "i \<le> length acts \<Longrightarrow> reaches idx (drop i acts) q \<Longrightarrow> Flatten_loop idx acts i = None"
    by blast
qed

lemma Flatten_expands:
  assumes "expands idx (Actions p) rs"
  shows "Flatten idx p = Some (\<lparr>Actions = rs, Point = Point p\<rparr>, None)"
  using loop_expands_total [OF assms] by (simp add: Flatten_def Clone_def)

lemma Flatten_success:
  assumes "Flatten idx p = Some (r, None)"
  shows "expands idx (Actions p) (Actions r) \<and> Point r = Point p"
proof -
  from assms obtain rs where l: "Flatten_loop idx (Actions p) 0 = Some (Inr rs)"
    and r: "r = \<lparr>Actions = rs, Point = Point p\<rparr>"
    by (auto simp: Flatten_def Clone_def split: option.splits sum.splits)
  from loop_result [OF l] have "expands idx (Actions p) rs" by simp
  with r show ?thesis by simp
qed

lemma Flatten_failure:
  assumes "Flatten idx p = Some (r, Some e)"
  shows "r = zeroPipe \<and> (\<exists>name. e = unresolved name)"
proof -
  from assms have l: "Flatten_loop idx (Actions p) 0 = Some (Inl e)" and r: "r = zeroPipe"
    by (auto simp: Flatten_def Clone_def split: option.splits sum.splits)
  from loop_result [OF l] r show ?thesis by simp
qed

lemma Flatten_diverges:
  assumes "GetUniquePipe idx q = Some rq" and "reaches idx (Actions rq) q"
    and "reaches idx (Actions p) q"
  shows "Flatten idx p = None"
  using loop_diverges [OF assms(1,2), of 0 "Actions p"] assms(3)
  by (simp add: Flatten_def Clone_def)

lemma GetUniquePipe_single: "GetUniquePipe [(n, p)] n = Some p"
  by (simp add: GetUniquePipe_def)

lemma pipeRef_simps: "GetAction (pipeRef n) = ''pipe''" "GetOrDefaultArg (pipeRef n) ''name'' = n"
  by (simp_all add: pipeRef_def GetAction_def GetOrDefaultArg_def)

lemma Actions_pipe_of: "Actions (pipe_of as) = as"
  by (simp add: pipe_of_def)

lemma step_action_simps: "GetAction (step_action k) = k"
  by (simp add: step_action_def GetAction_def)

text \<open>
  C5 (as stated, refuted): in the index that holds only \<open>Q = [pipeRef Q]\<close> the one
  kind-\<open>pipe\<close> action resolves uniquely, yet \<open>Flatten\<close> of \<open>Q\<close> returns nothing:
  there is no flattened pipe, so no action sequence and no Point.
\<close>

theorem Flatten_self_reference_counterexample:
  "GetUniquePipe [(''Q'', pipe_of [pipeRef ''Q''])] ''Q'' = Some (pipe_of [pipeRef ''Q''])
   \<and> Flatten [(''Q'', pipe_of [pipeRef ''Q''])] (pipe_of [pipeRef ''Q'']) = None"
proof -
  let ?Q = "pipe_of [pipeRef ''Q'']"
  have g: "GetUniquePipe [(''Q'', ?Q)] ''Q'' = Some ?Q"
    by (rule GetUniquePipe_single)
  have "reaches [(''Q'', ?Q)] [pipeRef ''Q''] ''Q''"
    by (rule reaches_here) (simp_all add: pipeRef_simps)
  then have r: "reaches [(''Q'', ?Q)] (Actions ?Q) ''Q''"
    by (simp add: Actions_pipe_of)
  from g Flatten_diverges [OF g r r] show ?thesis by simp
qed

text \<open>
  C5 (amended): for every index and pipe whose references expand finitely, \<open>Flatten\<close>
  computes the recursive in-place expansion and keeps the Point. Whenever the actions of
  the pipe expand to \<open>rs\<close> (each reference resolving uniquely, the inlined actions
  expanded in turn, the expansion coming to an end), \<open>Flatten\<close> terminates without error
  with the actions \<open>rs\<close> and the Point of its input; conversely every pipe \<open>Flatten\<close>
  returns without error is that expansion with that Point. In particular, for actions A,
  B, C, D that are not references and a reference to \<open>Q\<close> that resolves uniquely to a pipe
  with actions \<open>[C, D]\<close>, the pipe \<open>[A, ref, B]\<close> flattens to \<open>[A, C, D, B]\<close> with its
  Point. And at every reference that resolves, whatever follows, one pass of the loop
  replaces the reference in place by the actions of the referenced pipe and scans on from
  the same position, so that the inserted actions are scanned in turn.
\<close>

theorem Flatten_inlines:
  "(expands idx (Actions p) rs \<longrightarrow> Flatten idx p = Some (\<lparr>Actions = rs, Point = Point p\<rparr>, None))
   \<and> (Flatten idx p = Some (r, None) \<longrightarrow> expands idx (Actions p) (Actions r) \<and> Point r = Point p)
   \<and> (GetAction A \<noteq> ''pipe'' \<and> GetAction B \<noteq> ''pipe'' \<and> GetAction C \<noteq> ''pipe'' \<and> GetAction D \<noteq> ''pipe''
        \<and> GetAction ref = ''pipe'' \<and> GetOrDefaultArg ref ''name'' = ''Q''
        \<and> GetUniquePipe idx ''Q'' = Some Q \<and> Actions Q = [C, D]
      \<longrightarrow> Flatten idx \<lparr>Actions = [A, ref, B], Point = pt\<rparr> = Some (\<lparr>Actions = [A, C, D, B], Point = pt\<rparr>, None))
   \<and> (GetAction a = ''pipe'' \<and> GetUniquePipe idx (GetOrDefaultArg a ''name'') = Some rp
      \<longrightarrow> Flatten_loop idx (pre @ a # rest) (length pre)
            = Flatten_loop idx (pre @ Actions rp @ rest) (length pre))"
proof (intro conjI impI)
  assume "expands idx (Actions p) rs"
  then show "Flatten idx p = Some (\<lparr>Actions = rs, Point = Point p\<rparr>, None)"
    by (rule Flatten_expands)
next
  assume "Flatten idx p = Some (r, None)"
  then show "expands idx (Actions p) (Actions r)" "Point r = Point p"
    using Flatten_success by blast+
next
  assume h: "GetAction A \<noteq> ''pipe'' \<and> GetAction B \<noteq> ''pipe'' \<and> GetAction C \<noteq> ''pipe'' \<and> GetAction D \<noteq> ''pipe''
        \<and> GetAction ref = ''pipe'' \<and> GetOrDefaultArg ref ''name'' = ''Q''
        \<and> GetUniquePipe idx ''Q'' = Some Q \<and> Actions Q = [C, D]"
  have cd: "expands idx (Actions Q) [C, D]"
    using h by (auto intro!: expands.intros)
  have b: "expands idx [B] [B]"
    using h by (auto intro!: expands.intros)
  have "expands idx (ref # [B]) ([C, D] @ [B])"
    using h cd b by (intro expands_Inline [where rp = Q]) simp_all
  then have "expands idx [A, ref, B] [A, C, D, B]"
    using h by (auto intro: expands_Keep)
  then show "Flatten idx \<lparr>Actions = [A, ref, B], Point = pt\<rparr> = Some (\<lparr>Actions = [A, C, D, B], Point = pt\<rparr>, None)"
    using Flatten_expands [of idx "\<lparr>Actions = [A, ref, B], Point = pt\<rparr>" "[A, C, D, B]"] by simp
next
  assume "GetAction a = ''pipe'' \<and> GetUniquePipe idx (GetOrDefaultArg a ''name'') = Some rp"
  then show "Flatten_loop idx (pre @ a # rest) (length pre)
               = Flatten_loop idx (pre @ Actions rp @ rest) (length pre)"
    using loop_inline by blast
qed

text \<open>The instance of C5 with concrete actions and the index holding only \<open>Q\<close>.\<close>

theorem Flatten_inlines_witness:
  "GetUniquePipe [(''Q'', pipe_of [step_action ''c'', step_action ''d''])] ''Q''
     = Some (pipe_of [step_action ''c'', step_action ''d''])
   \<and> Flatten [(''Q'', pipe_of [step_action ''c'', step_action ''d''])]
        \<lparr>Actions = [step_action ''a'', pipeRef ''Q'', step_action ''b''],
         Point = \<lparr>Nullable = True, Repeated = False, Scalar = ''string''\<rparr>\<rparr>
     = Some (\<lparr>Actions = [step_action ''a'', step_action ''c'', step_action ''d'', step_action ''b''],
              Point = \<lparr>Nullable = True, Repeated = False, Scalar = ''string''\<rparr>\<rparr>, None)"
  using Flatten_inlines [of "[(''Q'', pipe_of [step_action ''c'', step_action ''d''])]" _ _ _
      "step_action ''a''" "step_action ''b''" "step_action ''c''" "step_action ''d''" "pipeRef ''Q''"
      "pipe_of [step_action ''c'', step_action ''d'']"
      "\<lparr>Nullable = True, Repeated = False, Scalar = ''string''\<rparr>"]
  by (simp add: GetUniquePipe_single pipeRef_simps step_action_simps pipe_of_def)

text \<open>
  C1 (the code at the failing input): with \<open>A = [pipeRef B]\<close> and \<open>B = [pipeRef A]\<close> in
  the index, \<open>Flatten\<close> of \<open>A\<close> does not return: the loop replaces the one reference at
  position 0 by the other for ever, the slice keeping its length 1. No error, of the
  FailedPrecondition class or any other, is returned.
\<close>

theorem Flatten_cycle_never_returns:
  "Flatten [(''A'', pipe_of [pipeRef ''B'']), (''B'', pipe_of [pipeRef ''A''])] (pipe_of [pipeRef ''B'']) = None"
proof -
  let ?idx = "[(''A'', pipe_of [pipeRef ''B'']), (''B'', pipe_of [pipeRef ''A''])]"
  have a: "GetUniquePipe ?idx ''A'' = Some (pipe_of [pipeRef ''B''])"
    and b: "GetUniquePipe ?idx ''B'' = Some (pipe_of [pipeRef ''A''])"
    by (simp_all add: GetUniquePipe_def)
  have ra: "reaches ?idx [pipeRef ''A''] ''A''"
    by (rule reaches_here) (simp_all add: pipeRef_simps)
  have "reaches ?idx [pipeRef ''B''] ''A''"
    by (rule reaches_into [where rp = "pipe_of [pipeRef ''A'']"])
      (simp_all add: pipeRef_simps b Actions_pipe_of ra)
  then have r: "reaches ?idx (Actions (pipe_of [pipeRef ''B''])) ''A''"
    by (simp add: Actions_pipe_of)
  show ?thesis
    by (rule Flatten_diverges [OF a r r])
qed

section \<open>Properties of ScanDependencies\<close>

lemma keys_distinct: "keyA \<noteq> keyB" "keyB \<noteq> keyA"
  by (simp_all add: keyA_def keyB_def)

lemma query_A: "query (graph_env [(keyA, keyB), (keyB, keyA)]) keyA = Inr \<lparr>rows = [Inr (row_of keyB)], rows_err = None\<rparr>"
  by (simp add: graph_env_def keys_distinct)

lemma query_B: "query (graph_env [(keyA, keyB), (keyB, keyA)]) keyB = Inr \<lparr>rows = [Inr (row_of keyA)], rows_err = None\<rparr>"
  by (simp add: graph_env_def keys_distinct)

lemma scan_row_graph:
  "scan_rows (graph_env deps) collect [Inr (row_of k)] queue seen c =
     RowsDone (if k \<notin> seen then queue @ [k] else queue) (insert k seen) (c @ [stored k])"
  by (cases k) (simp add: graph_env_def row_of_def collect_def NullString_String_def Key_def stored_def Let_def)

text \<open>
  C4 (the code at the failing input): on the graph with the two edges A\<rightarrow>B and B\<rightarrow>A, the
  scan from A, consumed to its end, terminates and yields B, then A, then B again. The
  starting key is never put into \<open>seen\<close>, so A is enqueued a second time when its row
  comes up, its dependencies are queried twice, and B is yielded twice.
\<close>

theorem ScanDependencies_cycle_yields_B_twice:
  "ScanDependencies (graph_env [(keyA, keyB), (keyB, keyA)]) keyA collect []
     = Some (ScanReturns [stored keyB, stored keyA, stored keyB])"
proof -
  let ?env = "graph_env [(keyA, keyB), (keyB, keyA)]"
  have 4: "scan_queue ?env collect [] {keyA, keyB} [stored keyB, stored keyA, stored keyB]
             = Some (ScanReturns [stored keyB, stored keyA, stored keyB])"
    by (subst scan_queue.simps) simp
  have 3: "scan_queue ?env collect [keyA] {keyA, keyB} [stored keyB, stored keyA]
             = Some (ScanReturns [stored keyB, stored keyA, stored keyB])"
    by (subst scan_queue.simps) (simp add: query_A scan_row_graph 4 insert_commute)
  have 2: "scan_queue ?env collect [keyB] {keyB} [stored keyB]
             = Some (ScanReturns [stored keyB, stored keyA, stored keyB])"
    by (subst scan_queue.simps) (simp add: query_B scan_row_graph 3 keys_distinct)
  have 1: "scan_queue ?env collect [keyA] {} []
             = Some (ScanReturns [stored keyB, stored keyA, stored keyB])"
    by (subst scan_queue.simps) (simp add: query_A scan_row_graph 2)
  have "conn_error ?env = None" "prepare_error ?env = None"
    by (simp_all add: graph_env_def)
  with 1 show ?thesis by (simp add: ScanDependencies_def)
qed

section \<open>Properties of PipeStore.Store\<close>

lemma Store_error_unchanged:
  "fst (Store env db pipe) \<noteq> None \<Longrightarrow> snd (Store env db pipe) = db"
  by (auto simp: Store_def Rollback_def split: option.splits prod.splits)

lemma Store_tx_duplicate:
  assumes m: "marshalNullableJSONString env (ApiPipe_pipe pipe) = Inr sp"
    and f: "fault env StepDisableOld = None" "fault env StepPreparePipe = None" "fault env StepInsertPipe = None"
    and d: "\<exists>p \<in> set (Pipes tx). PipeRow_Name p = Name (Key pipe) \<and> PipeRow_Digest p = Digest (Key pipe)"
  shows "fst (Store_tx env tx pipe) = Some (alreadyExistsFunc ''pipe'' pipe constraint_failed)"
proof -
  have "Pipes (disable_old (Name (Key pipe)) tx) = Pipes tx"
    by (simp add: disable_old_def)
  with d have "insert_pipe (Name (Key pipe)) (Digest (Key pipe)) (AsNumber (Point (ApiPipe_pipe pipe))) sp
                 (disable_old (Name (Key pipe)) tx) = Inl constraint_failed"
    by (simp add: insert_pipe_def)
  then show ?thesis
    using m f by (simp add: Store_tx_def handleExecErrors_def)
qed

lemma store_deps_ok:
  "fst (store_deps env k n deps tx) = None
     \<longleftrightarrow> (\<forall>i < length deps. fault env (StepInsertDep (n + i)) = None)"
proof (induction deps arbitrary: n tx)
  case Nil
  show ?case by simp
next
  case (Cons dep deps)
  show ?case
  proof (cases "fault env (StepInsertDep n)")
    case (Some err)
    then have "\<not> (\<forall>i < length (dep # deps). fault env (StepInsertDep (n + i)) = None)"
      by (auto intro: exI [of _ 0])
    with Some show ?thesis by simp
  next
    case None
    have "(\<forall>i < length (dep # deps). fault env (StepInsertDep (n + i)) = None)
            \<longleftrightarrow> (\<forall>i < length deps. fault env (StepInsertDep (Suc n + i)) = None)"
      using None by (auto simp: less_Suc_eq_0_disj)
    with None Cons.IH [of "Suc n" "insert_dep k dep tx"] show ?thesis by simp
  qed
qed

lemma Pipes_store_deps: "Pipes (snd (store_deps env k n deps tx)) = Pipes tx"
proof (induction deps arbitrary: n tx)
  case Nil
  show ?case by simp
next
  case (Cons dep deps)
  have "Pipes (insert_dep k dep tx) = Pipes tx"
    by (simp add: insert_dep_def split: list.splits)
  with Cons.IH [of "Suc n" "insert_dep k dep tx"] show ?case
    by (simp split: option.splits)
qed

lemma Store_steps_ok:
  "(\<forall>s \<in> set (Store_steps env pipe). fault env s = None)
     \<longleftrightarrow> fault env StepConn = None \<and> fault env StepBeginTx = None \<and> fault env StepDisableOld = None
         \<and> fault env StepPreparePipe = None \<and> fault env StepInsertPipe = None
         \<and> fault env StepPrepareDeps = None
         \<and> (\<forall>i < length (Deps env (ApiPipe_pipe pipe)). fault env (StepInsertDep i) = None)
         \<and> fault env StepEnableNew = None \<and> fault env StepCommit = None"
  by (auto simp: Store_steps_def)

lemma has_row_disable_old: "has_row (disable_old n db) pipe = has_row db pipe"
  by (simp add: has_row_def disable_old_def)

lemma insert_pipe_cases:
  "insert_pipe (Name (Key pipe)) (Digest (Key pipe)) t sp db
     = (if has_row db pipe then Inl constraint_failed
        else Inr (db\<lparr>Pipes := Pipes db @
                  [\<lparr>PipeRow_ID = next_id (map PipeRow_ID (Pipes db)), PipeRow_Name = Name (Key pipe),
                    PipeRow_Digest = Digest (Key pipe), PipeRow_TypeNumber = t, PipeRow_Spec = sp\<rparr>]\<rparr>))"
  by (simp add: insert_pipe_def has_row_def)

lemma Store_tx_ok:
  "fst (Store_tx env tx pipe) = None
     \<longleftrightarrow> (\<exists>sp. marshalNullableJSONString env (ApiPipe_pipe pipe) = Inr sp)
         \<and> fault env StepDisableOld = None \<and> fault env StepPreparePipe = None
         \<and> fault env StepInsertPipe = None \<and> \<not> has_row tx pipe
         \<and> fault env StepPrepareDeps = None
         \<and> (\<forall>i < length (Deps env (ApiPipe_pipe pipe)). fault env (StepInsertDep i) = None)
         \<and> fault env StepEnableNew = None"
proof (cases "marshalNullableJSONString env (ApiPipe_pipe pipe)")
  case (Inl err)
  then show ?thesis by (simp add: Store_tx_def)
next
  case (Inr sp)
  show ?thesis
  proof (cases "fault env StepDisableOld = None \<and> fault env StepPreparePipe = None
                  \<and> fault env StepInsertPipe = None \<and> \<not> has_row tx pipe")
    case False
    with Inr show ?thesis
      by (auto simp: Store_tx_def Let_def insert_pipe_cases has_row_disable_old split: option.splits)
  next
    case True
    let ?tx1 = "disable_old (Name (Key pipe)) tx"
    let ?tx2 = "?tx1\<lparr>Pipes := Pipes ?tx1 @
                  [\<lparr>PipeRow_ID = next_id (map PipeRow_ID (Pipes ?tx1)), PipeRow_Name = Name (Key pipe),
                    PipeRow_Digest = Digest (Key pipe),
                    PipeRow_TypeNumber = AsNumber (Point (ApiPipe_pipe pipe)), PipeRow_Spec = sp\<rparr>]\<rparr>"
    have ins: "insert_pipe (Name (Key pipe)) (Digest (Key pipe)) (AsNumber (Point (ApiPipe_pipe pipe))) sp ?tx1
                 = Inr ?tx2"
      using True by (simp add: insert_pipe_cases has_row_disable_old)
    have tx: "Store_tx env tx pipe
                = (case storePipeDeps env ?tx2 pipe of
                     (Some err, tx) \<Rightarrow> (Some err, tx)
                   | (None, tx) \<Rightarrow>
                       (case fault env StepEnableNew of
                          Some err \<Rightarrow> (Some err, tx)
                        | None \<Rightarrow> (None, enable_new (Key pipe) tx)))"
      using True Inr ins by (simp add: Store_tx_def Let_def)
    have deps: "fst (storePipeDeps env ?tx2 pipe) = None
                  \<longleftrightarrow> fault env StepPrepareDeps = None
                      \<and> (\<forall>i < length (Deps env (ApiPipe_pipe pipe)). fault env (StepInsertDep i) = None)"
      using store_deps_ok [of env "Key pipe" 0 "Deps env (ApiPipe_pipe pipe)" ?tx2]
      by (cases "fault env StepPrepareDeps") (simp_all add: storePipeDeps_def)
    show ?thesis
      unfolding tx using True Inr deps
      by (cases "storePipeDeps env ?tx2 pipe"; cases "fault env StepEnableNew")
        (auto split: option.splits)
  qed
qed

lemma Store_ok:
  "fst (Store env db pipe) = None
     \<longleftrightarrow> (\<forall>s \<in> set (Store_steps env pipe). fault env s = None)
         \<and> (\<exists>sp. marshalNullableJSONString env (ApiPipe_pipe pipe) = Inr sp)
         \<and> \<not> has_row db pipe"
proof -
  have "fst (Store env db pipe) = None
          \<longleftrightarrow> fault env StepConn = None \<and> fault env StepBeginTx = None
              \<and> fst (Store_tx env db pipe) = None \<and> fault env StepCommit = None"
    by (cases "Store_tx env db pipe") (auto simp: Store_def split: option.splits)
  then show ?thesis
    unfolding Store_tx_ok Store_steps_ok by blast
qed

lemma has_row_Store_tx:
  assumes "fst (Store_tx env tx pipe) = None"
  shows "has_row (snd (Store_tx env tx pipe)) pipe"
proof -
  from assms obtain sp where m: "marshalNullableJSONString env (ApiPipe_pipe pipe) = Inr sp"
    and f: "fault env StepDisableOld = None" "fault env StepPreparePipe = None"
      "fault env StepInsertPipe = None" "\<not> has_row tx pipe" "fault env StepPrepareDeps = None"
      "fault env StepEnableNew = None"
    and d: "\<forall>i < length (Deps env (ApiPipe_pipe pipe)). fault env (StepInsertDep i) = None"
    unfolding Store_tx_ok by blast
  let ?tx1 = "disable_old (Name (Key pipe)) tx"
  let ?tx2 = "?tx1\<lparr>Pipes := Pipes ?tx1 @
                [\<lparr>PipeRow_ID = next_id (map PipeRow_ID (Pipes ?tx1)), PipeRow_Name = Name (Key pipe),
                  PipeRow_Digest = Digest (Key pipe),
                  PipeRow_TypeNumber = AsNumber (Point (ApiPipe_pipe pipe)), PipeRow_Spec = sp\<rparr>]\<rparr>"
  let ?sd = "store_deps env (Key pipe) 0 (Deps env (ApiPipe_pipe pipe)) ?tx2"
  have ok: "fst ?sd = None"
    using d by (simp add: store_deps_ok)
  have "Store_tx env tx pipe = (None, enable_new (Key pipe) (snd ?sd))"
    using m f ok
    by (cases ?sd) (simp add: Store_tx_def Let_def insert_pipe_cases has_row_disable_old storePipeDeps_def)
  moreover have "has_row (enable_new (Key pipe) (snd ?sd)) pipe"
    by (simp add: has_row_def enable_new_def Pipes_store_deps)
  ultimately show ?thesis by simp
qed

text \<open>
  C6: storing a pipe is atomic. If any step of \<open>Store\<close> fails (a driver call of the
  run: the connection, the begin, the disable toggle, the preparation and the insert of the
  spec row, the preparation of the edge statement, the recording of any dependency edge,
  the enable toggle or the commit; or the marshalling; or the insert meeting a row with the
  pipe's name and digest), then \<open>Store\<close> returns an error and the database after the call
  is the database before it; and whenever \<open>Store\<close> returns an error the database is
  unchanged. When the insert of the spec row is reached on a database that already holds
  the pipe's (name, digest), the error is of the AlreadyExists class. And when no step
  fails, \<open>Store\<close> returns nil and the spec row is in the database.
\<close>

theorem Store_atomic:
  "(((\<exists>s \<in> set (Store_steps env pipe). fault env s \<noteq> None)
       \<or> (\<exists>err. marshalNullableJSONString env (ApiPipe_pipe pipe) = Inl err)
       \<or> has_row db pipe)
      \<longrightarrow> fst (Store env db pipe) \<noteq> None \<and> snd (Store env db pipe) = db)
   \<and> (fst (Store env db pipe) \<noteq> None \<longrightarrow> snd (Store env db pipe) = db)
   \<and> (fault env StepConn = None \<and> fault env StepBeginTx = None
        \<and> marshalNullableJSONString env (ApiPipe_pipe pipe) = Inr sp
        \<and> fault env StepDisableOld = None \<and> fault env StepPreparePipe = None
        \<and> fault env StepInsertPipe = None \<and> has_row db pipe
      \<longrightarrow> (\<exists>err. Store env db pipe = (Some err, db) \<and> wraps err = Some ErrAlreadyExists))
   \<and> ((\<forall>s \<in> set (Store_steps env pipe). fault env s = None)
        \<and> marshalNullableJSONString env (ApiPipe_pipe pipe) = Inr sp \<and> \<not> has_row db pipe
      \<longrightarrow> fst (Store env db pipe) = None \<and> has_row (snd (Store env db pipe)) pipe)"
proof (intro conjI impI)
  assume f: "(\<exists>s \<in> set (Store_steps env pipe). fault env s \<noteq> None)
       \<or> (\<exists>err. marshalNullableJSONString env (ApiPipe_pipe pipe) = Inl err)
       \<or> has_row db pipe"
  have "fst (Store env db pipe) \<noteq> None"
  proof
    assume "fst (Store env db pipe) = None"
    then have "(\<forall>s \<in> set (Store_steps env pipe). fault env s = None)
         \<and> (\<exists>sp. marshalNullableJSONString env (ApiPipe_pipe pipe) = Inr sp)
         \<and> \<not> has_row db pipe"
      using Store_ok by blast
    with f show False by auto
  qed
  then show "fst (Store env db pipe) \<noteq> None" and "snd (Store env db pipe) = db"
    by (simp_all add: Store_error_unchanged)
next
  assume "fst (Store env db pipe) \<noteq> None"
  then show "snd (Store env db pipe) = db"
    by (rule Store_error_unchanged)
next
  assume h: "fault env StepConn = None \<and> fault env StepBeginTx = None
        \<and> marshalNullableJSONString env (ApiPipe_pipe pipe) = Inr sp
        \<and> fault env StepDisableOld = None \<and> fault env StepPreparePipe = None
        \<and> fault env StepInsertPipe = None \<and> has_row db pipe"
  then have "fst (Store_tx env db pipe) = Some (alreadyExistsFunc ''pipe'' pipe constraint_failed)"
    by (intro Store_tx_duplicate [where sp = sp]) (simp_all add: has_row_def)
  then obtain tx where "Store_tx env db pipe = (Some (alreadyExistsFunc ''pipe'' pipe constraint_failed), tx)"
    by (cases "Store_tx env db pipe") simp
  with h have "Store env db pipe = (Some (alreadyExistsFunc ''pipe'' pipe constraint_failed), db)"
    by (simp add: Store_def Rollback_def)
  moreover have "wraps (alreadyExistsFunc ''pipe'' pipe constraint_failed) = Some ErrAlreadyExists"
    by (simp add: alreadyExistsFunc_def Errorf_def)
  ultimately show "\<exists>err. Store env db pipe = (Some err, db) \<and> wraps err = Some ErrAlreadyExists"
    by blast
next
  assume h: "(\<forall>s \<in> set (Store_steps env pipe). fault env s = None)
        \<and> marshalNullableJSONString env (ApiPipe_pipe pipe) = Inr sp \<and> \<not> has_row db pipe"
  then show ok: "fst (Store env db pipe) = None"
    by (simp add: Store_ok)
  then have c: "fault env StepConn = None" "fault env StepBeginTx = None"
    "fst (Store_tx env db pipe) = None" "fault env StepCommit = None"
    by (cases "Store_tx env db pipe"; auto simp: Store_def split: option.splits)+
  then have "snd (Store env db pipe) = snd (Store_tx env db pipe)"
    by (cases "Store_tx env db pipe") (simp add: Store_def Commit_def)
  with has_row_Store_tx [OF c(3)] show "has_row (snd (Store env db pipe)) pipe"
    by simp
qed

lemma fault_faulty_env: "fault (faulty_env f) s = (if Some s = f then Some io_error else None)"
  by (simp add: faulty_env_def)

lemma Store_tx_EnableNew_fails:
  "Store_tx (faulty_env (Some StepEnableNew)) db1 (pipeX ''d2'')
     = (Some io_error,
        db1\<lparr>Pipes := Pipes db1 @ [\<lparr>PipeRow_ID = 2, PipeRow_Name = ''X'', PipeRow_Digest = ''d2'',
                                     PipeRow_TypeNumber = 0, PipeRow_Spec = Some ''{}''\<rparr>],
            ResourceLabels := [\<lparr>LabelRow_ID = 1, LabelRow_ResourceID = 1, LabelRow_Label = ''disabled''\<rparr>]\<rparr>)"
  by (simp add: Store_tx_def faulty_env_def db1_def pipeX_def disable_old_def insert_label_or_ignore_def
      Key_def insert_pipe_def next_id_def storePipeDeps_def zeroPoint_def AsNumber_def)

text \<open>
  C6 at concrete inputs: storing \<open>X\<close> at a new digest with a failure at the enable toggle
  returns the error and leaves the database as it was, although the transaction had
  written a label and the spec row by then; storing \<open>X\<close> at the digest already stored
  fails with the AlreadyExists error; storing \<open>X\<close> at a new digest without a failure
  succeeds and the spec row is there.
\<close>

theorem Store_atomic_witness:
  "StepEnableNew \<in> set (Store_steps (faulty_env (Some StepEnableNew)) (pipeX ''d2''))
   \<and> fault (faulty_env (Some StepEnableNew)) StepEnableNew = Some io_error
   \<and> snd (Store_tx (faulty_env (Some StepEnableNew)) db1 (pipeX ''d2'')) \<noteq> db1
   \<and> Store (faulty_env (Some StepEnableNew)) db1 (pipeX ''d2'') = (Some io_error, db1)
   \<and> has_row db1 (pipeX ''d1'')
   \<and> Store (faulty_env None) db1 (pipeX ''d1'')
       = (Some (Errorf ''failed to store %s (%q): %w'' [''pipe'', ''X''] (Some ErrAlreadyExists)), db1)
   \<and> \<not> has_row db1 (pipeX ''d2'')
   \<and> fst (Store (faulty_env None) db1 (pipeX ''d2'')) = None
   \<and> has_row (snd (Store (faulty_env None) db1 (pipeX ''d2''))) (pipeX ''d2'')"
proof -
  let ?e1 = "faulty_env (Some StepEnableNew)" and ?e0 = "faulty_env None"
  have st: "StepEnableNew \<in> set (Store_steps ?e1 (pipeX ''d2''))"
    by (simp add: Store_steps_def)
  have fl: "fault ?e1 StepEnableNew = Some io_error"
    by (simp add: fault_faulty_env)
  have tx: "snd (Store_tx ?e1 db1 (pipeX ''d2'')) \<noteq> db1"
    unfolding Store_tx_EnableNew_fails by (simp add: db1_def)
  have hr1: "has_row db1 (pipeX ''d1'')" and hr2: "\<not> has_row db1 (pipeX ''d2'')"
    by (simp_all add: has_row_def db1_def pipeX_def Key_def)
  have m: "\<And>p. marshalNullableJSONString ?e0 p = Inr (Some ''{}'')"
    by (simp add: faulty_env_def)
  have nf: "\<forall>s \<in> set (Store_steps ?e0 (pipeX ''d2'')). fault ?e0 s = None"
    by (simp add: fault_faulty_env)
  have "\<exists>s \<in> set (Store_steps ?e1 (pipeX ''d2'')). fault ?e1 s \<noteq> None"
    using st fl by (intro bexI [of _ StepEnableNew]) simp_all
  with Store_atomic [of ?e1 "pipeX ''d2''" db1]
  have e: "fst (Store ?e1 db1 (pipeX ''d2'')) \<noteq> None" "snd (Store ?e1 db1 (pipeX ''d2'')) = db1"
    by blast+
  have "fst (Store ?e1 db1 (pipeX ''d2'')) = Some io_error"
    by (simp add: Store_def Store_tx_EnableNew_fails fault_faulty_env)
  with e(2) have s1: "Store ?e1 db1 (pipeX ''d2'') = (Some io_error, db1)"
    by (simp add: prod_eq_iff)
  have "snd (Store ?e0 db1 (pipeX ''d1'')) = db1"
    using Store_atomic [of ?e0 "pipeX ''d1''" db1] hr1 by blast
  moreover have "fst (Store ?e0 db1 (pipeX ''d1''))
      = Some (Errorf ''failed to store %s (%q): %w'' [''pipe'', ''X''] (Some ErrAlreadyExists))"
    by (simp add: Store_def Store_tx_def faulty_env_def db1_def pipeX_def disable_old_def
        insert_label_or_ignore_def Key_def insert_pipe_def next_id_def handleExecErrors_def
        alreadyExistsFunc_def Rollback_def)
  ultimately have s0: "Store ?e0 db1 (pipeX ''d1'')
      = (Some (Errorf ''failed to store %s (%q): %w'' [''pipe'', ''X''] (Some ErrAlreadyExists)), db1)"
    by (simp add: prod_eq_iff)
  have ok: "fst (Store ?e0 db1 (pipeX ''d2'')) = None
            \<and> has_row (snd (Store ?e0 db1 (pipeX ''d2''))) (pipeX ''d2'')"
    using Store_atomic [of ?e0 "pipeX ''d2''" db1 "Some ''{}''"] nf m hr2 by blast
  from st fl tx s1 hr1 s0 hr2 ok show ?thesis by blast
qed

section \<open>Properties of Flatten on the heap\<close>

lemma fresh_alloc:
  assumes "take (length h0) h = h0" "length h0 \<le> length h" "alloc extra h xs = (h1, s1)"
  shows "fresh h0 h1 s1"
  using assms by (auto simp: fresh_def alloc_def)

lemma fresh_store:
  assumes "fresh h0 h s" "0 < slice_cap s" "l \<le> slice_cap s"
  shows "fresh h0 (store_elems h s xs) (s\<lparr>slice_len := l\<rparr>)"
  using assms by (auto simp: fresh_def store_elems_def)

lemma Clone_h_fresh:
  assumes "Clone_h extra h s = (h1, s1)"
  shows "fresh h h1 s1"
proof (cases "slice_len s = 0")
  case True
  with assms show ?thesis by (auto simp: Clone_h_def fresh_def)
next
  case False
  with assms have "alloc extra h (elems h s) = (h1, s1)" by (simp add: Clone_h_def)
  then show ?thesis by (intro fresh_alloc [where h = h and extra = extra]) simp_all
qed

lemma Delete_h_fresh:
  assumes "fresh h0 h s" "i < slice_len s" "Delete_h h s i (i + 1) = (h1, s1)"
  shows "fresh h0 h1 s1"
proof -
  from assms(1,2) have c: "0 < slice_cap s" "slice_len s - 1 \<le> slice_cap s"
    by (auto simp: fresh_def)
  from assms(3) have "h1 = store_elems h s (take i (elems h s) @ drop (i + 1) (elems h s) @ replicate 1 zeroAction)"
    and "s1 = s\<lparr>slice_len := slice_len s - 1\<rparr>"
    by (simp_all add: Delete_h_def Let_def)
  with fresh_store [OF assms(1) c] show ?thesis by simp
qed

lemma Insert_h_fresh:
  assumes "fresh h0 h s" "Insert_h extra h s i vs = (h1, s1)"
  shows "fresh h0 h1 s1"
proof (cases "length vs = 0")
  case True
  with assms show ?thesis by (simp add: Insert_h_def)
next
  case m: False
  show ?thesis
  proof (cases "slice_len s + length vs \<le> slice_cap s")
    case True
    with m have c: "0 < slice_cap s" by (cases vs) simp_all
    from True m assms(2) have "h1 = store_elems h s (take i (elems h s) @ vs @ drop i (elems h s))"
      and "s1 = s\<lparr>slice_len := slice_len s + length vs\<rparr>"
      by (simp_all add: Insert_h_def Let_def)
    with fresh_store [OF assms(1) c True] show ?thesis by simp
  next
    case False
    with m assms(2) have "alloc extra h (take i (elems h s) @ vs @ drop i (elems h s)) = (h1, s1)"
      by (simp add: Insert_h_def Let_def)
    moreover from assms(1) have "take (length h0) h = h0" "length h0 \<le> length h"
      by (simp_all add: fresh_def)
    ultimately show ?thesis by (intro fresh_alloc [where h = h and extra = extra]) simp_all
  qed
qed

lemma loop_h_frame:
  assumes "Flatten_loop_h extra idx h s i = Some out" and "fresh h0 h s"
  shows "take (length h0) (fst out) = h0 \<and> length h0 \<le> length (fst out)"
  using assms(2)
proof (induction extra idx h s i out rule: Flatten_loop_h.raw_induct)
  case (1 loop extra idx h s i out)
  note IH = "1.IH" and eq = "1.hyps" and fr = "1.prems"
  show ?case
  proof (cases "i < slice_len s")
    case False
    with eq have "fst out = h" by auto
    with fr show ?thesis by (simp add: fresh_def)
  next
    case True
    show ?thesis
    proof (cases "GetAction (index_h h s i) \<noteq> ''pipe''")
      case np: True
      with True eq have "loop extra idx h s (i + 1) = Some out" by (simp add: Let_def)
      from IH [OF this fr] show ?thesis .
    next
      case p: False
      show ?thesis
      proof (cases "GetUniquePipe idx (GetOrDefaultArg (index_h h s i) ''name'')")
        case None
        with True p eq have "fst out = h" by (auto simp add: Let_def)
        with fr show ?thesis by (simp add: fresh_def)
      next
        case (Some rp)
        obtain h1 s1 where d: "Delete_h h s i (i + 1) = (h1, s1)"
          by (cases "Delete_h h s i (i + 1)")
        obtain h2 s2 where n: "Insert_h extra h1 s1 i (elems h1 (HActions rp)) = (h2, s2)"
          by (cases "Insert_h extra h1 s1 i (elems h1 (HActions rp))")
        from Some True p eq d n have st: "loop extra idx h2 s2 i = Some out"
          by (simp add: Let_def)
        have "fresh h0 h1 s1" by (rule Delete_h_fresh [OF fr True d])
        then have "fresh h0 h2 s2" by (rule Insert_h_fresh [OF _ n])
        from IH [OF st this] show ?thesis .
      qed
    qed
  qed
qed (rule assms(1))

lemma Flatten_h_heap:
  assumes "Flatten_h extra idx h pipe = Some (h', r, err)"
  shows "take (length h) h' = h \<and> length h \<le> length h'"
proof -
  obtain h0 s0 where c: "Clone_h extra h (HActions pipe) = (h0, s0)"
    by (cases "Clone_h extra h (HActions pipe)")
  with assms obtain res where l: "Flatten_loop_h extra idx h0 s0 0 = Some (h', res)"
    by (auto simp: Flatten_h_def split: option.splits sum.splits)
  from loop_h_frame [OF l Clone_h_fresh [OF c]] show ?thesis by simp
qed

lemma Flatten_h_failure:
  assumes "Flatten_h extra idx h pipe = Some (h', r, Some e)"
  shows "r = zeroHPipe"
  using assms by (auto simp: Flatten_h_def split: option.splits sum.splits prod.splits)

lemma elems_frame:
  assumes "take (length h) h' = h" "slice_len s = 0 \<or> slice_base s < length h"
  shows "elems h' s = elems h s"
proof (cases "slice_len s = 0")
  case True
  then show ?thesis by (simp add: elems_def)
next
  case False
  with assms(2) have b: "slice_base s < length h" by simp
  have "h ! slice_base s = take (length h) h' ! slice_base s"
    using assms(1) by simp
  also have "\<dots> = h' ! slice_base s"
    using b by simp
  finally show ?thesis by (simp add: elems_def)
qed

text \<open>
  C9: \<open>Flatten\<close> never writes to its input. Whenever \<open>Flatten\<close> returns, with a pipe or
  with an error, every backing array that existed when it was called is unchanged in the
  heap it leaves: the only arrays written are the clone and the arrays \<open>Insert\<close>
  allocates. So the actions of the input pipe (and of every pipe of the index) read the
  same after the call as before; the Point of the input is in the caller's copy of the
  struct, which the callee cannot reach; and on failure the zero Pipe is returned.
\<close>

theorem Flatten_h_frame:
  assumes "Flatten_h extra idx h pipe = Some (h', r, err)"
  shows "take (length h) h' = h
         \<and> (slice_len (HActions pipe) = 0 \<or> slice_base (HActions pipe) < length h
              \<longrightarrow> elems h' (HActions pipe) = elems h (HActions pipe))
         \<and> (err \<noteq> None \<longrightarrow> r = zeroHPipe)"
proof -
  from Flatten_h_heap [OF assms] have t: "take (length h) h' = h" by simp
  moreover from t have "elems h' (HActions pipe) = elems h (HActions pipe)"
    if "slice_len (HActions pipe) = 0 \<or> slice_base (HActions pipe) < length h"
    using that by (rule elems_frame)
  moreover have "r = zeroHPipe" if "err \<noteq> None"
    using that assms Flatten_h_failure by (cases err) auto
  ultimately show ?thesis by blast
qed

lemma Flatten_h_heap1:
  "Flatten_h (\<lambda>n. 0) hindex1 heap1 hpipe1
     = Some (heap1 @ [[step_action ''a'', step_action ''b'', zeroAction],
                      [step_action ''a'', step_action ''c'', step_action ''d'', step_action ''b'']],
             \<lparr>HActions = whole 3 4, HPoint = zeroPoint\<rparr>, None)"
  by (simp add: Flatten_h_def Clone_h_def alloc_def elems_def heap1_def hpipe1_def hindex1_def
      whole_def Flatten_loop_h.simps index_h_def pipeRef_simps step_action_simps GetUniquePipe_def
      Delete_h_def Insert_h_def store_elems_def Let_def)

text \<open>
  C9 at a concrete input: flattening \<open>[a, pipeRef Q, b]\<close> with \<open>Q = [c, d]\<close> and an
  allocator without spare capacity writes the clone (array 2, shortened in place by
  \<open>Delete\<close>) and the array \<open>Insert\<close> allocates (array 3); arrays 0 and 1 are as before.
\<close>

theorem Flatten_h_frame_witness:
  "Flatten_h (\<lambda>n. 0) hindex1 heap1 hpipe1
     = Some (heap1 @ [[step_action ''a'', step_action ''b'', zeroAction],
                      [step_action ''a'', step_action ''c'', step_action ''d'', step_action ''b'']],
             \<lparr>HActions = whole 3 4, HPoint = zeroPoint\<rparr>, None)
   \<and> slice_base (HActions hpipe1) < length heap1
   \<and> elems (heap1 @ [[step_action ''a'', step_action ''b'', zeroAction],
                      [step_action ''a'', step_action ''c'', step_action ''d'', step_action ''b'']])
        (HActions hpipe1)
       = [step_action ''a'', pipeRef ''Q'', step_action ''b'']"
proof -
  have b: "slice_base (HActions hpipe1) < length heap1"
    by (simp add: hpipe1_def whole_def heap1_def)
  have e: "elems heap1 (HActions hpipe1) = [step_action ''a'', pipeRef ''Q'', step_action ''b'']"
    by (simp add: elems_def hpipe1_def whole_def heap1_def)
  from Flatten_h_frame [OF Flatten_h_heap1] b e Flatten_h_heap1 show ?thesis
    by simp
qed

subsection \<open>The heap model refines the value model\<close>

lemma length_elems: "wf_slice h s \<Longrightarrow> length (elems h s) = slice_len s"
  by (auto simp: wf_slice_def elems_def)

lemma index_h_elems: "wf_slice h s \<Longrightarrow> i < slice_len s \<Longrightarrow> index_h h s i = elems h s ! i"
  by (auto simp: wf_slice_def elems_def index_h_def)

lemma elems_store:
  assumes "wf_slice h s" "0 < slice_cap s" "length xs \<le> slice_cap s" "l \<le> length xs"
  shows "elems (store_elems h s xs) (s\<lparr>slice_len := l\<rparr>) = take l xs"
    and "wf_slice (store_elems h s xs) (s\<lparr>slice_len := l\<rparr>)"
proof -
  from assms(1,2) have b: "slice_base s < length h"
    and c: "slice_off s + slice_cap s \<le> length (h ! slice_base s)"
    by (auto simp: wf_slice_def)
  let ?a = "h ! slice_base s"
  let ?a' = "take (slice_off s) ?a @ xs @ drop (slice_off s + length xs) ?a"
  have n: "store_elems h s xs ! slice_base s = ?a'"
    using b by (simp add: store_elems_def)
  have o: "slice_off s \<le> length ?a" using c by simp
  then have "drop (slice_off s) ?a' = xs @ drop (slice_off s + length xs) ?a"
    by simp
  with assms(4) show "elems (store_elems h s xs) (s\<lparr>slice_len := l\<rparr>) = take l xs"
    by (simp add: elems_def n)
  have "length ?a' = length ?a"
    using c assms(3) by simp
  with b c assms(3,4) show "wf_slice (store_elems h s xs) (s\<lparr>slice_len := l\<rparr>)"
    by (simp add: wf_slice_def n) (simp add: store_elems_def)
qed

lemma elems_alloc:
  assumes "alloc extra h xs = (h1, s1)"
  shows "elems h1 s1 = xs" and "wf_slice h1 s1"
  using assms by (auto simp: alloc_def elems_def wf_slice_def)

lemma Delete_h_elems:
  assumes "wf_slice h s" "i < slice_len s" "Delete_h h s i (i + 1) = (h1, s1)"
  shows "elems h1 s1 = Delete (elems h s) i (i + 1)" and "wf_slice h1 s1"
proof -
  let ?xs = "take i (elems h s) @ drop (i + 1) (elems h s) @ replicate 1 zeroAction"
  from assms(3) have h1: "h1 = store_elems h s ?xs"
    and s1: "s1 = s\<lparr>slice_len := slice_len s - 1\<rparr>"
    by (simp_all add: Delete_h_def Let_def)
  from assms(1,2) have c: "0 < slice_cap s" and lc: "slice_len s \<le> slice_cap s"
    by (auto simp: wf_slice_def)
  have len: "length ?xs = slice_len s"
    using assms(2) length_elems [OF assms(1)] by simp
  have l: "slice_len s - 1 \<le> length ?xs" using len by simp
  have le: "length ?xs \<le> slice_cap s" using len lc by simp
  have "take (slice_len s - 1) ?xs = take i (elems h s) @ drop (i + 1) (elems h s)"
    using assms(2) length_elems [OF assms(1)] by simp
  with elems_store(1) [OF assms(1) c le l] show "elems h1 s1 = Delete (elems h s) i (i + 1)"
    by (simp add: h1 s1 Delete_def)
  from elems_store(2) [OF assms(1) c le l] show "wf_slice h1 s1"
    by (simp add: h1 s1)
qed

lemma Insert_h_elems:
  assumes "wf_slice h s" "i \<le> slice_len s" "Insert_h extra h s i vs = (h1, s1)"
  shows "elems h1 s1 = Insert (elems h s) i vs" and "wf_slice h1 s1"
proof -
  let ?xs = "take i (elems h s) @ vs @ drop i (elems h s)"
  have len: "length ?xs = slice_len s + length vs"
    using assms(2) length_elems [OF assms(1)] by simp
  have "elems h1 s1 = Insert (elems h s) i vs \<and> wf_slice h1 s1"
  proof (cases "length vs = 0")
    case True
    with assms(3) have "h1 = h" "s1 = s" by (simp_all add: Insert_h_def)
    with True assms(1) show ?thesis by (simp add: Insert_def)
  next
    case m: False
    show ?thesis
    proof (cases "slice_len s + length vs \<le> slice_cap s")
      case True
      with m have c: "0 < slice_cap s" by (cases vs) simp_all
      from True m assms(3) have h1: "h1 = store_elems h s ?xs"
        and s1: "s1 = s\<lparr>slice_len := slice_len s + length vs\<rparr>"
        by (simp_all add: Insert_h_def Let_def)
      have le: "length ?xs \<le> slice_cap s" using len True by simp
      have l: "slice_len s + length vs \<le> length ?xs" using len by simp
      have t: "take (slice_len s + length vs) ?xs = ?xs"
        using len by (intro take_all) simp
      have "elems h1 s1 = take (slice_len s + length vs) ?xs"
        unfolding h1 s1 by (rule elems_store(1) [OF assms(1) c le l])
      moreover have "wf_slice h1 s1"
        unfolding h1 s1 by (rule elems_store(2) [OF assms(1) c le l])
      ultimately show ?thesis
        unfolding t by (simp add: Insert_def)
    next
      case False
      with m assms(3) have "alloc extra h ?xs = (h1, s1)"
        by (simp add: Insert_h_def Let_def)
      from elems_alloc [OF this] show ?thesis by (simp add: Insert_def)
    qed
  qed
  then show "elems h1 s1 = Insert (elems h s) i vs" and "wf_slice h1 s1" by simp_all
qed

lemma GetUniquePipe_mem: "GetUniquePipe idx n = Some p \<Longrightarrow> (n, p) \<in> set idx"
proof -
  assume a: "GetUniquePipe idx n = Some p"
  then obtain e where "filter (\<lambda>e. fst e = n) idx = [e]" and p: "snd e = p"
    by (auto simp: GetUniquePipe_def split: list.splits)
  then have "e \<in> set (filter (\<lambda>e. fst e = n) idx)" by simp
  then have "e \<in> set idx" "fst e = n" by simp_all
  with p show ?thesis by (cases e) simp
qed

lemma GetUniquePipe_abs:
  "GetUniquePipe (abs_index h idx) n = map_option (abs_pipe h) (GetUniquePipe idx n)"
proof -
  have "filter (\<lambda>e. fst e = n) (abs_index h idx)
          = map (\<lambda>e. (fst e, abs_pipe h (snd e))) (filter (\<lambda>e. fst e = n) idx)"
    by (simp add: abs_index_def filter_map comp_def)
  then show ?thesis
    by (simp add: GetUniquePipe_def split: list.splits)
qed

lemma elems_frame_wf:
  assumes "take (length h0) h = h0" "wf_slice h0 s"
  shows "elems h s = elems h0 s"
proof -
  from assms(2) have "slice_len s = 0 \<or> slice_base s < length h0"
    by (auto simp: wf_slice_def)
  with assms(1) show ?thesis by (intro elems_frame) simp_all
qed

text \<open>One pass of the loop body at a reference that resolves, on the heap and on values.\<close>

lemma inline_step:
  assumes wfi: "wf_index h0 idx" and fr: "fresh h0 h s" and wf: "wf_slice h s"
    and lt: "i < slice_len s" and rp: "GetUniquePipe idx n = Some rp"
    and d: "Delete_h h s i (i + 1) = (h1, s1)"
    and ins: "Insert_h extra h1 s1 i (elems h1 (HActions rp)) = (h2, s2)"
  shows "fresh h0 h2 s2" and "wf_slice h2 s2"
    and "elems h2 s2 = Insert (Delete (elems h s) i (i + 1)) i (Actions (abs_pipe h0 rp))"
    and "i \<le> slice_len s2"
proof -
  have f1: "fresh h0 h1 s1" by (rule Delete_h_fresh [OF fr lt d])
  show f2: "fresh h0 h2 s2" by (rule Insert_h_fresh [OF f1 ins])
  have w1: "wf_slice h1 s1" and e1: "elems h1 s1 = Delete (elems h s) i (i + 1)"
    using Delete_h_elems [OF wf lt d] by simp_all
  have "length (elems h1 s1) = slice_len s - 1"
    using lt length_elems [OF wf] by (simp add: e1 Delete_def)
  then have i1: "i \<le> slice_len s1" using lt length_elems [OF w1] by simp
  show w2: "wf_slice h2 s2" and e2: "elems h2 s2 = Insert (Delete (elems h s) i (i + 1)) i (Actions (abs_pipe h0 rp))"
  proof -
    from GetUniquePipe_mem [OF rp] wfi have "wf_slice h0 (HActions rp)"
      by (auto simp: wf_index_def)
    moreover from f1 have "take (length h0) h1 = h0" by (simp add: fresh_def)
    ultimately have "elems h1 (HActions rp) = elems h0 (HActions rp)"
      by (intro elems_frame_wf)
    with Insert_h_elems [OF w1 i1 ins] e1
    show "wf_slice h2 s2" and "elems h2 s2 = Insert (Delete (elems h s) i (i + 1)) i (Actions (abs_pipe h0 rp))"
      by (simp_all add: abs_pipe_def)
  qed
  have "i \<le> length (elems h2 s2)"
    using lt length_elems [OF wf] by (simp add: e2 Insert_def Delete_def)
  then show "i \<le> slice_len s2" using length_elems [OF w2] by simp
qed

lemma loop_h_refines:
  assumes "Flatten_loop_h extra idx h s i = Some out" and wfi: "wf_index h0 idx"
    and "fresh h0 h s" and "wf_slice h s" and "i \<le> slice_len s"
  shows "Flatten_loop (abs_index h0 idx) (elems h s) i = Some (abs_result out)"
  using assms(2-5)
proof (induction extra idx h s i out rule: Flatten_loop_h.raw_induct)
  case (1 loop extra idx h s i out)
  note IH = "1.IH" and eq = "1.hyps" and wfi = "1.prems"(1)
    and fr = "1.prems"(2) and wf = "1.prems"(3) and le = "1.prems"(4)
  note len = length_elems [OF wf]
  show ?case
  proof (cases "i < slice_len s")
    case False
    with eq have "out = (h, Inr s)" by simp
    moreover from False le have "i = length (elems h s)" using len by simp
    ultimately show ?thesis
      by (subst Flatten_loop.simps) (simp add: abs_result_def)
  next
    case True
    note a = index_h_elems [OF wf True]
    show ?thesis
    proof (cases "GetAction (index_h h s i) \<noteq> ''pipe''")
      case np: True
      with True eq have st: "loop extra idx h s (i + 1) = Some out" by (simp add: Let_def)
      have le': "i + 1 \<le> slice_len s" using True by simp
      from IH [OF st wfi fr wf le'] np True show ?thesis
        by (subst Flatten_loop.simps) (simp add: a len)
    next
      case p: False
      let ?n = "GetOrDefaultArg (index_h h s i) ''name''"
      show ?thesis
      proof (cases "GetUniquePipe idx ?n")
        case None
        with True p eq have "out = (h, Inl (unresolved ?n))" by (simp add: Let_def)
        with None p True show ?thesis
          by (subst Flatten_loop.simps) (simp add: a [symmetric] len GetUniquePipe_abs abs_result_def)
      next
        case (Some rp)
        obtain h1 s1 where d: "Delete_h h s i (i + 1) = (h1, s1)"
          by (cases "Delete_h h s i (i + 1)")
        obtain h2 s2 where n: "Insert_h extra h1 s1 i (elems h1 (HActions rp)) = (h2, s2)"
          by (cases "Insert_h extra h1 s1 i (elems h1 (HActions rp))")
        from Some True p eq d n have st: "loop extra idx h2 s2 i = Some out"
          by (simp add: Let_def)
        note stp = inline_step [OF wfi fr wf True Some d n]
        from IH [OF st wfi stp(1,2,4)] stp(3) Some p True show ?thesis
          by (subst Flatten_loop.simps) (simp add: a [symmetric] len GetUniquePipe_abs)
      qed
    qed
  qed
qed (rule assms(1))

lemma loop_refined_by_h:
  assumes "Flatten_loop aidx acts i = Some res" and wfi: "wf_index h0 idx"
  shows "\<forall>h s. aidx = abs_index h0 idx \<and> fresh h0 h s \<and> wf_slice h s \<and> elems h s = acts \<and> i \<le> slice_len s
           \<longrightarrow> (\<exists>out. Flatten_loop_h extra idx h s i = Some out \<and> abs_result out = res)"
proof (induction aidx acts i res rule: Flatten_loop.raw_induct)
  case (1 loop aidx acts i res)
  note IH = "1.IH" and eq = "1.hyps"
  show ?case
  proof (intro allI impI)
    fix h s
    assume h: "aidx = abs_index h0 idx \<and> fresh h0 h s \<and> wf_slice h s \<and> elems h s = acts \<and> i \<le> slice_len s"
    then have aidx: "aidx = abs_index h0 idx" and fr: "fresh h0 h s" and wf: "wf_slice h s"
      and acts: "elems h s = acts" and le: "i \<le> slice_len s"
      by simp_all
    note len = length_elems [OF wf]
    show "\<exists>out. Flatten_loop_h extra idx h s i = Some out \<and> abs_result out = res"
    proof (cases "i < slice_len s")
      case False
      with eq len acts have "res = Inr acts" by simp
      with False acts show ?thesis
        by (subst Flatten_loop_h.simps) (simp add: abs_result_def)
    next
      case True
      note a = index_h_elems [OF wf True]
      from True len acts have lt: "i < length acts" by simp
      show ?thesis
      proof (cases "GetAction (acts ! i) \<noteq> ''pipe''")
        case np: True
        with lt eq have st: "loop aidx acts (i + 1) = Some res" by (simp add: Let_def)
        have "aidx = abs_index h0 idx \<and> fresh h0 h s \<and> wf_slice h s \<and> elems h s = acts \<and> i + 1 \<le> slice_len s"
          using h True by simp
        with IH [OF st] obtain out where
          "Flatten_loop_h extra idx h s (i + 1) = Some out" "abs_result out = res"
          by blast
        with np True show ?thesis
          by (subst Flatten_loop_h.simps) (simp add: a acts)
      next
        case p: False
        let ?n = "GetOrDefaultArg (acts ! i) ''name''"
        show ?thesis
        proof (cases "GetUniquePipe idx ?n")
          case None
          then have "GetUniquePipe aidx ?n = None" by (simp add: aidx GetUniquePipe_abs)
          with lt p eq have "res = Inl (unresolved ?n)" by (simp add: Let_def)
          with None p True show ?thesis
            by (subst Flatten_loop_h.simps) (simp add: a acts abs_result_def)
        next
          case (Some rp)
          then have g: "GetUniquePipe aidx ?n = Some (abs_pipe h0 rp)"
            by (simp add: aidx GetUniquePipe_abs)
          obtain h1 s1 where d: "Delete_h h s i (i + 1) = (h1, s1)"
            by (cases "Delete_h h s i (i + 1)")
          obtain h2 s2 where n: "Insert_h extra h1 s1 i (elems h1 (HActions rp)) = (h2, s2)"
            by (cases "Insert_h extra h1 s1 i (elems h1 (HActions rp))")
          note stp = inline_step [OF wfi fr wf True Some d n]
          from g lt p eq have st: "loop aidx (Insert (Delete acts i (i + 1)) i (Actions (abs_pipe h0 rp))) i = Some res"
            by (simp add: Let_def)
          have "aidx = abs_index h0 idx \<and> fresh h0 h2 s2 \<and> wf_slice h2 s2
                  \<and> elems h2 s2 = Insert (Delete acts i (i + 1)) i (Actions (abs_pipe h0 rp)) \<and> i \<le> slice_len s2"
            using stp aidx acts by simp
          with IH [OF st] obtain out where
            "Flatten_loop_h extra idx h2 s2 i = Some out" "abs_result out = res"
            by blast
          with Some p True d n show ?thesis
            by (subst Flatten_loop_h.simps) (simp add: a acts)
        qed
      qed
    qed
  qed
qed (rule assms(1))

lemma Clone_h_elems:
  assumes "wf_slice h s" "Clone_h extra h s = (h1, s1)"
  shows "elems h1 s1 = Clone (elems h s)" and "wf_slice h1 s1"
proof -
  have "elems h1 s1 = Clone (elems h s) \<and> wf_slice h1 s1"
  proof (cases "slice_len s = 0")
    case True
    with assms(2) show ?thesis
      by (auto simp: Clone_h_def Clone_def elems_def wf_slice_def)
  next
    case False
    with assms(2) have "alloc extra h (elems h s) = (h1, s1)" by (simp add: Clone_h_def)
    from elems_alloc [OF this] show ?thesis by (simp add: Clone_def)
  qed
  then show "elems h1 s1 = Clone (elems h s)" and "wf_slice h1 s1" by simp_all
qed

lemma zeroHPipe_simps: "elems h (HActions zeroHPipe) = []" "HPoint zeroHPipe = zeroPoint"
  by (simp_all add: zeroHPipe_def nil_slice_def elems_def)

text \<open>
  The two embeddings of \<open>Flatten\<close> agree: on a well-formed heap, \<open>Flatten\<close> on the heap
  returns exactly when \<open>Flatten\<close> on the values held by the heap at the call returns, with
  the same error, and the pipe it returns holds, in the heap it leaves, the actions that
  \<open>Flatten\<close> on values computes.
\<close>

lemma Flatten_h_refines:
  assumes wfi: "wf_index h idx" and wf: "wf_slice h (HActions pipe)"
  shows "map_option (\<lambda>(h', r, e). (abs_pipe h' r, e)) (Flatten_h extra idx h pipe)
           = Flatten (abs_index h idx) (abs_pipe h pipe)"
proof -
  obtain h0 s0 where c: "Clone_h extra h (HActions pipe) = (h0, s0)"
    by (cases "Clone_h extra h (HActions pipe)")
  note fr = Clone_h_fresh [OF c]
  note ce = Clone_h_elems [OF wf c]
  have acts: "Clone (elems h (HActions pipe)) = elems h0 s0"
    by (simp add: ce(1))
  show ?thesis
  proof (cases "Flatten_loop_h extra idx h0 s0 0")
    case None
    have "Flatten_loop (abs_index h idx) (elems h0 s0) 0 = None"
    proof (cases "Flatten_loop (abs_index h idx) (elems h0 s0) 0")
      case (Some res)
      from loop_refined_by_h [OF Some wfi, of extra] fr ce(2)
      have "\<exists>out. Flatten_loop_h extra idx h0 s0 0 = Some out \<and> abs_result out = res"
        by blast
      with None show ?thesis by simp
    qed simp
    with None c show ?thesis
      by (simp add: Flatten_h_def Flatten_def abs_pipe_def acts)
  next
    case (Some out)
    from loop_h_refines [OF Some wfi fr ce(2)]
    have p: "Flatten_loop (abs_index h idx) (elems h0 s0) 0 = Some (abs_result out)"
      by simp
    show ?thesis
    proof (cases out)
      case (Pair h' res)
      with Some p c show ?thesis
        by (cases res)
          (simp_all add: Flatten_h_def Flatten_def abs_pipe_def acts abs_result_def zeroHPipe_simps
            zeroPipe_def)
    qed
  qed
qed

end
